theory Spec2Isabelle
  imports Main "HOL-Library.Multiset" "HOL-Library.AList" "HOL-Library.Sublist"
    "HOL-Library.Char_ord" "HOL-Library.List_Lexorder"
begin

text \<open>
  A model of the reporting script \<open>test_cases_by_top_suite_patched3.py\<close>: the paginated
  fetch with its fallback over API versions, the resolution of the plan by name, the suite
  hierarchy, the precedence of outcomes, and the aggregation of \<open>main\<close> up to the rows
  it writes. \<open>get_json_paginated_fallback\<close> and \<open>resolve_plan_id_by_name\<close> read the same
  in \<open>test_case_burndown.py\<close>. JSON objects are records whose optional keys are options;
  a function that may not return has an option result, \<open>None\<close> standing for a loop that
  never ends; an exception is the left summand of a result.
\<close>

section \<open>Python values and errors\<close>

text \<open>
  The scripts raise \<open>SystemExit\<close> with a message for every fatal condition; the other
  constructors are the built-in exceptions that the modelled statements can raise.
\<close>

datatype error =
    SystemExit string
  | KeyError string
  | AttributeError string
  | ValueError string

text \<open>Truthiness of an \<open>Optional[str]\<close>: \<open>None\<close> and the empty string are falsy.\<close>

definition truthy :: "string option \<Rightarrow> bool" where
  "truthy v = (case v of None \<Rightarrow> False | Some s \<Rightarrow> s \<noteq> [])"

text \<open>\<open>a or b\<close> on optional strings.\<close>

definition py_or :: "string option \<Rightarrow> string option \<Rightarrow> string option" where
  "py_or a b = (if truthy a then a else b)"

text \<open>\<open>d.get(k, default)\<close> on a dictionary.\<close>

definition dict_get :: "('k \<rightharpoonup> 'v) \<Rightarrow> 'k \<Rightarrow> 'v \<Rightarrow> 'v" where
  "dict_get d k dflt = (case d k of None \<Rightarrow> dflt | Some v \<Rightarrow> v)"

section \<open>Outcome precedence\<close>

text \<open>
  \<open>OUTCOME_ORDER\<close> of \<open>test_cases_by_top_suite_patched3.py\<close>: a dictionary whose
  keys are strings and \<open>None\<close>.
\<close>

definition OUTCOME_ORDER :: "string option \<rightharpoonup> int" where
  "OUTCOME_ORDER = map_of
     [(Some ''Failed'', 6),
      (Some ''Blocked'', 5),
      (Some ''Paused'', 4),
      (Some ''Active'', 3),
      (Some ''NotApplicable'', 2),
      (Some ''Passed'', 0),
      (None, -1), (Some '''', -1), (Some ''None'', -1), (Some ''NeverRun'', -1)]"

definition worse :: "string option \<Rightarrow> string option \<Rightarrow> string option" where
  "worse a b =
     (let va = dict_get OUTCOME_ORDER a (-1);
          vb = dict_get OUTCOME_ORDER b (-1)
      in if va \<ge> vb then a else b)"

text \<open>
  The bucket update of \<open>main\<close>, \<open>bucket["outcome"] = worse(bucket["outcome"], outcome)\<close>,
  run over a sequence of observed outcomes from the initial bucket value \<open>None\<close>.
\<close>

definition reconcile :: "string option list \<Rightarrow> string option" where
  "reconcile outcomes = foldl worse None outcomes"

text \<open>
  The \<open>Outcome\<close> column of an emitted row:
  \<open>info["outcome"] if info["outcome"] not in (None, "", "None") else "NeverRun"\<close>.
\<close>

definition emitted_outcome :: "string option \<Rightarrow> string" where
  "emitted_outcome v =
     (case v of
        None \<Rightarrow> ''NeverRun''
      | Some s \<Rightarrow> if s = '''' \<or> s = ''None'' then ''NeverRun'' else s)"

text \<open>The recognised statuses, worst first.\<close>

definition statuses :: "string list" where
  "statuses = [''Failed'', ''Blocked'', ''Paused'', ''Active'', ''NotApplicable'', ''Passed'']"

subsection \<open>Points\<close>

text \<open>
  A point as the points endpoint returns it. The nested objects \<open>mostRecentResult\<close>,
  \<open>lastTestRun\<close> and \<open>lastResultDetails\<close> may be absent (\<open>None\<close>); each carries an
  optional \<open>outcome\<close>. \<open>resolvedOutcome\<close> is the key \<open>get_points_for_suite\<close> adds.
\<close>

record outcome_ref =
  ref_outcome :: "string option"

record test_case =
  tc_id :: "string option"
  tc_name :: "string option"

record point =
  point_id :: "int option"
  outcome :: "string option"
  mostRecentResult :: "outcome_ref option"
  lastTestRun :: "outcome_ref option"
  lastResultDetails :: "outcome_ref option"
  testCase :: "test_case option"
  resolvedOutcome :: "string option"

text \<open>\<open>(point.get(key) or {}).get("outcome")\<close>.\<close>

definition nested_outcome :: "outcome_ref option \<Rightarrow> string option" where
  "nested_outcome r = (case r of None \<Rightarrow> None | Some d \<Rightarrow> ref_outcome d)"

definition resolve_point_outcome :: "point \<Rightarrow> string option" where
  "resolve_point_outcome p =
     (let o1 = outcome p in
      if truthy o1 then o1
      else let o2 = nested_outcome (mostRecentResult p) in
      if truthy o2 then o2
      else let o3 = nested_outcome (lastTestRun p) in
      if truthy o3 then o3
      else nested_outcome (lastResultDetails p))"

text \<open>The four candidate fields of a point, in the documented order.\<close>

definition outcome_candidates :: "point \<Rightarrow> string option list" where
  "outcome_candidates p =
     [outcome p,
      nested_outcome (mostRecentResult p),
      nested_outcome (lastTestRun p),
      nested_outcome (lastResultDetails p)]"

text \<open>The values a bucket's outcome can hold: unset, or a recognised status.\<close>

definition settled :: "string option \<Rightarrow> bool" where
  "settled v = (v = None \<or> v \<in> Some ` set statuses)"

section \<open>HTTP and versioned pagination\<close>

text \<open>Decimal rendering of a status code, as in an f-string.\<close>

definition digit_char :: "nat \<Rightarrow> char" where
  "digit_char d = ''0123456789'' ! d"

fun show_nat :: "nat \<Rightarrow> string" where
  "show_nat n = (if n < 10 then [digit_char n] else show_nat (n div 10) @ [digit_char (n mod 10)])"

declare show_nat.simps [simp del]

text \<open>
  A GET request is its URL and its query parameters (the headers are the same for every
  request). A response carries \<open>r.status_code\<close>, \<open>r.text\<close>, the decoded \<open>r.json()\<close> and
  the header \<open>x-ms-continuationtoken\<close>. A decoded body is a JSON object, whose values are
  arrays of items or single items, or a JSON array. The remote service is a function of the
  request and of its own state, which every request may change.
\<close>

record request =
  req_url :: string
  req_query :: "(string \<times> string) list"

datatype 'a jvalue = Items "'a list" | Single 'a

datatype 'a body = Dict "(string \<times> 'a jvalue) list" | Array "'a list"

record 'a response =
  status_code :: nat
  body_text :: string
  body_json :: "'a body"
  continuation :: "string option"

type_synonym ('a, 's) server = "request \<Rightarrow> 's \<Rightarrow> 'a response \<times> 's"

text \<open>
  \<open>q = dict(params or {}); q["api-version"] = ver\<close>, and
  \<open>q["continuationToken"] = token\<close> when the token is truthy.
\<close>

definition page_query :: "(string \<times> string) list \<Rightarrow> string \<Rightarrow> string option \<Rightarrow> (string \<times> string) list" where
  "page_query params ver token =
     (let q = AList.update ''api-version'' ver params
      in case token of
           None \<Rightarrow> q
         | Some t \<Rightarrow> if t \<noteq> [] then AList.update ''continuationToken'' t q else q)"

definition page_request :: "string \<Rightarrow> (string \<times> string) list \<Rightarrow> string \<Rightarrow> string option \<Rightarrow> request" where
  "page_request url params ver token = \<lparr>req_url = url, req_query = page_query params ver token\<rparr>"

text \<open>
  \<open>chunk = body.get(value_key, [])\<close> on a JSON object, then
  \<open>chunk if isinstance(chunk, list) else [chunk]\<close>.
\<close>

definition page_chunk :: "string \<Rightarrow> (string \<times> 'a jvalue) list \<Rightarrow> 'a list" where
  "page_chunk value_key d =
     (case dict_get (map_of d) value_key (Items []) of Items xs \<Rightarrow> xs | Single x \<Rightarrow> [x])"

text \<open>
  The \<open>while True\<close> loop of \<open>get_json_paginated_fallback\<close> for one version. It ends by
  \<open>break\<close> with the new value of \<open>last\<close>, by \<open>return out\<close>, or by an exception
  (\<open>body.get\<close> on a JSON array raises \<open>AttributeError\<close>); \<open>None\<close> when it does not end.
\<close>

datatype 'a loop_exit = Break string | Return "'a list" | Raise error

partial_function (option) paginate ::
  "('a, 's) server \<Rightarrow> string \<Rightarrow> (string \<times> string) list \<Rightarrow> string \<Rightarrow> string
     \<Rightarrow> string option \<Rightarrow> 'a list \<Rightarrow> 's \<Rightarrow> ('a loop_exit \<times> 's) option" where
  "paginate srv url params value_key ver token out s =
     (case srv (page_request url params ver token) s of (r, s1) \<Rightarrow>
        if status_code r \<ge> 400
        then Some (Break (show_nat (status_code r) @ '' '' @ body_text r), s1)
        else (case body_json r of
                Array xs \<Rightarrow> Some (Raise (AttributeError ''get''), s1)
              | Dict d \<Rightarrow>
                  let out1 = out @ page_chunk value_key d;
                      token1 = continuation r
                  in if \<not> truthy token1 then Some (Return out1, s1)
                     else paginate srv url params value_key ver token1 out1 s1))"

text \<open>
  The \<open>for ver in versions\<close> loop: every version starts from \<open>out = []\<close> and
  \<open>token = None\<close>; \<open>last_err\<close> is the variable \<open>last\<close>.
\<close>

fun version_loop ::
  "('a, 's) server \<Rightarrow> string \<Rightarrow> (string \<times> string) list \<Rightarrow> string \<Rightarrow> string list
     \<Rightarrow> string \<Rightarrow> 's \<Rightarrow> ((error + 'a list) \<times> 's) option" where
  "version_loop srv url params value_key [] last_err s =
     Some (Inl (SystemExit (''All versions failed for '' @ url @ [CHR 0x0A] @ last_err)), s)"
| "version_loop srv url params value_key (ver # vers) last_err s =
     (case paginate srv url params value_key ver None [] s of
        None \<Rightarrow> None
      | Some (Break e, s1) \<Rightarrow> version_loop srv url params value_key vers e s1
      | Some (Return out, s1) \<Rightarrow> Some (Inr out, s1)
      | Some (Raise e, s1) \<Rightarrow> Some (Inl e, s1))"

definition get_json_paginated_fallback ::
  "('a, 's) server \<Rightarrow> string \<Rightarrow> string list \<Rightarrow> (string \<times> string) list \<Rightarrow> string
     \<Rightarrow> 's \<Rightarrow> ((error + 'a list) \<times> 's) option" where
  "get_json_paginated_fallback srv url versions params value_key s =
     version_loop srv url params value_key versions '''' s"


text \<open>
  What the claims call the pages fetched under a version. A response is a page when it is
  no HTTP error and its body is a JSON object.
  \<open>pages_from srv url params value_key ver token s chunks s'\<close> holds when the requests
  made under \<open>ver\<close>, linked by continuation tokens from \<open>token\<close> on, are all answered
  by pages and the last page carries no token: \<open>chunks\<close> are the arrays of these pages,
  \<open>s\<close> and \<open>s'\<close> the server's state before the first and after the last request.
\<close>

inductive pages_from ::
  "('a, 's) server \<Rightarrow> string \<Rightarrow> (string \<times> string) list \<Rightarrow> string \<Rightarrow> string
     \<Rightarrow> string option \<Rightarrow> 's \<Rightarrow> 'a list list \<Rightarrow> 's \<Rightarrow> bool"
  for srv url params value_key ver where
    last_page:
      "srv (page_request url params ver token) s = (r, s1) \<Longrightarrow> status_code r < 400 \<Longrightarrow>
       body_json r = Dict d \<Longrightarrow> \<not> truthy (continuation r) \<Longrightarrow>
       pages_from srv url params value_key ver token s [page_chunk value_key d] s1"
  | next_page:
      "srv (page_request url params ver token) s = (r, s1) \<Longrightarrow> status_code r < 400 \<Longrightarrow>
       body_json r = Dict d \<Longrightarrow> truthy (continuation r) \<Longrightarrow>
       pages_from srv url params value_key ver (continuation r) s1 chunks s2 \<Longrightarrow>
       pages_from srv url params value_key ver token s (page_chunk value_key d # chunks) s2"

text \<open>
  \<open>fails_with \<dots> ver token s r s'\<close>: the requests made under \<open>ver\<close> from \<open>token\<close>
  on are pages until one is answered by the HTTP error \<open>r\<close>.
\<close>

inductive fails_with ::
  "('a, 's) server \<Rightarrow> string \<Rightarrow> (string \<times> string) list \<Rightarrow> string \<Rightarrow> string
     \<Rightarrow> string option \<Rightarrow> 's \<Rightarrow> 'a response \<Rightarrow> 's \<Rightarrow> bool"
  for srv url params value_key ver where
    error_page:
      "srv (page_request url params ver token) s = (r, s1) \<Longrightarrow> 400 \<le> status_code r \<Longrightarrow>
       fails_with srv url params value_key ver token s r s1"
  | later_error:
      "srv (page_request url params ver token) s = (r0, s1) \<Longrightarrow> status_code r0 < 400 \<Longrightarrow>
       body_json r0 = Dict d \<Longrightarrow> truthy (continuation r0) \<Longrightarrow>
       fails_with srv url params value_key ver (continuation r0) s1 r s2 \<Longrightarrow>
       fails_with srv url params value_key ver token s r s2"

text \<open>
  \<open>all_fail \<dots> versions s rs s'\<close>: every version of the list, tried in order from the
  state \<open>s\<close>, fails; \<open>rs\<close> are the error responses, one per version.
\<close>

inductive all_fail ::
  "('a, 's) server \<Rightarrow> string \<Rightarrow> (string \<times> string) list \<Rightarrow> string
     \<Rightarrow> string list \<Rightarrow> 's \<Rightarrow> 'a response list \<Rightarrow> 's \<Rightarrow> bool"
  for srv url params value_key where
    none: "all_fail srv url params value_key [] s [] s"
  | more:
      "fails_with srv url params value_key ver None s r s1 \<Longrightarrow>
       all_fail srv url params value_key vers s1 rs s2 \<Longrightarrow>
       all_fail srv url params value_key (ver # vers) s (r # rs) s2"

text \<open>\<open>f"{r.status_code} {r.text}"\<close>.\<close>

definition error_text :: "'a response \<Rightarrow> string" where
  "error_text r = show_nat (status_code r) @ '' '' @ body_text r"

text \<open>
  A mocked resource: under version \<open>A\<close> the first page is served and the second request
  is answered with HTTP 500; under version \<open>B\<close> two pages are served, linked by a
  continuation token; any other version is answered with HTTP 404. The state counts the
  requests served.
\<close>

definition demo_page :: "nat list \<Rightarrow> string option \<Rightarrow> nat response" where
  "demo_page xs tok =
     \<lparr>status_code = 200, body_text = ''ok'', body_json = Dict [(''value'', Items xs)],
      continuation = tok\<rparr>"

definition demo_error :: "nat \<Rightarrow> string \<Rightarrow> nat response" where
  "demo_error code msg =
     \<lparr>status_code = code, body_text = msg, body_json = Dict [], continuation = None\<rparr>"

definition demo_server :: "(nat, nat) server" where
  "demo_server rq n =
     (let ver = map_of (req_query rq) ''api-version'';
          tok = map_of (req_query rq) ''continuationToken''
      in (if ver = Some ''A''
          then (if tok = None then demo_page [1, 2] (Some ''a2'') else demo_error 500 ''boom'')
          else if ver = Some ''B''
          then (if tok = None then demo_page [10, 11] (Some ''b2'') else demo_page [12] None)
          else demo_error 404 ''gone'',
          Suc n))"


section \<open>Suite hierarchy\<close>

text \<open>
  A suite as \<open>list_suites\<close> returns it: \<open>id\<close> is a string and \<open>parentId\<close> is a string
  or \<open>None\<close>.
\<close>

record suite =
  suite_id :: string
  suite_name :: string
  parentId :: "string option"

text \<open>\<open>by_id = {s["id"]: s for s in suites}\<close>: a later suite replaces an earlier one with the same id.\<close>

definition index_by_id :: "suite list \<Rightarrow> (string \<rightharpoonup> suite)" where
  "index_by_id suites = foldl (\<lambda>m s. m(suite_id s \<mapsto> s)) Map.empty suites"

text \<open>\<open>"/".join(parts)\<close>.\<close>

fun join :: "string \<Rightarrow> string list \<Rightarrow> string" where
  "join sep [] = []"
| "join sep [x] = x"
| "join sep (x # y # ys) = x @ sep @ join sep (y # ys)"

text \<open>
  One step of the loop of \<open>path_for\<close>:
  \<open>pid = cur.get("parentId"); cur = by_id.get(pid) if pid is not None else None\<close>.
\<close>

definition parent_of :: "(string \<rightharpoonup> suite) \<Rightarrow> suite \<Rightarrow> suite option" where
  "parent_of by_id cur = (case parentId cur of None \<Rightarrow> None | Some pid \<Rightarrow> by_id pid)"

text \<open>The \<open>while cur is not None\<close> loop of \<open>path_for\<close>; \<open>None\<close> when it does not end.\<close>

partial_function (option) walk_up ::
  "(string \<rightharpoonup> suite) \<Rightarrow> suite option \<Rightarrow> string list \<Rightarrow> string list option" where
  "walk_up by_id cur parts =
     (case cur of
        None \<Rightarrow> Some parts
      | Some c \<Rightarrow> walk_up by_id (parent_of by_id c) (parts @ [suite_name c]))"

definition path_for ::
  "(string \<rightharpoonup> suite) \<Rightarrow> (string \<rightharpoonup> string) \<Rightarrow> string
     \<Rightarrow> ((error + string) \<times> (string \<rightharpoonup> string)) option" where
  "path_for by_id cache sid =
     (case cache sid of
        Some p \<Rightarrow> Some (Inr p, cache)
      | None \<Rightarrow>
          (case by_id sid of
             None \<Rightarrow> Some (Inl (KeyError sid), cache)
           | Some cur \<Rightarrow>
               (case walk_up by_id (Some cur) [] of
                  None \<Rightarrow> None
                | Some parts \<Rightarrow>
                    let p = join ''/'' (rev parts)
                    in Some (Inr p, cache(sid \<mapsto> p)))))"

text \<open>The loop \<open>for s in suites: _ = path_for(s["id"])\<close>.\<close>

fun path_loop ::
  "(string \<rightharpoonup> suite) \<Rightarrow> suite list \<Rightarrow> (string \<rightharpoonup> string)
     \<Rightarrow> (error + (string \<rightharpoonup> string)) option" where
  "path_loop by_id [] cache = Some (Inr cache)"
| "path_loop by_id (s # ss) cache =
     (case path_for by_id cache (suite_id s) of
        None \<Rightarrow> None
      | Some (Inl e, cache1) \<Rightarrow> Some (Inl e)
      | Some (Inr p, cache1) \<Rightarrow> path_loop by_id ss cache1)"

definition build_suite_path_lookup :: "suite list \<Rightarrow> (error + (string \<rightharpoonup> string)) option" where
  "build_suite_path_lookup suites = path_loop (index_by_id suites) suites Map.empty"

text \<open>
  \<open>top_ancestor\<close> of \<open>main\<close>: the loop \<open>while cur.get("parentId") is not None:
  cur = by_id[cur["parentId"]]\<close>, and the function around it.
\<close>

partial_function (option) climb :: "(string \<rightharpoonup> suite) \<Rightarrow> suite \<Rightarrow> (error + string) option" where
  "climb by_id cur =
     (case parentId cur of
        None \<Rightarrow> Some (Inr (suite_id cur))
      | Some pid \<Rightarrow>
          (case by_id pid of
             None \<Rightarrow> Some (Inl (KeyError pid))
           | Some nxt \<Rightarrow> climb by_id nxt))"

definition top_ancestor :: "(string \<rightharpoonup> suite) \<Rightarrow> string \<Rightarrow> (error + string) option" where
  "top_ancestor by_id sid =
     (case by_id sid of
        None \<Rightarrow> Some (Inl (KeyError sid))
      | Some cur \<Rightarrow> climb by_id cur)"

text \<open>
  The claims' words. \<open>is_chain by_id sid ch\<close>: following the parent references from the
  suite with id \<open>sid\<close> visits the records \<open>ch\<close>, node first, and ends at a record with no
  parent. \<open>ancestor_after by_id k cur\<close> is the record reached from \<open>cur\<close> after \<open>k\<close>
  parent references, \<open>None\<close> once the walk has ended.
\<close>

fun is_chain :: "(string \<rightharpoonup> suite) \<Rightarrow> string \<Rightarrow> suite list \<Rightarrow> bool" where
  "is_chain by_id sid [] = False"
| "is_chain by_id sid (c # rest) =
     (by_id sid = Some c \<and>
      (case parentId c of None \<Rightarrow> rest = [] | Some pid \<Rightarrow> is_chain by_id pid rest))"

definition ancestor_after :: "(string \<rightharpoonup> suite) \<Rightarrow> nat \<Rightarrow> suite option \<Rightarrow> suite option" where
  "ancestor_after by_id k cur = ((\<lambda>c. Option.bind c (parent_of by_id)) ^^ k) cur"

text \<open>
  A snapshot is a forest when every parent reference names a suite of the list
  (\<open>parents_resolve\<close>) and no suite is reached again by following parent references from
  itself (\<open>acyclic_snapshot\<close>).
\<close>

definition parents_resolve :: "suite list \<Rightarrow> bool" where
  "parents_resolve suites =
     list_all (\<lambda>s. case parentId s of None \<Rightarrow> True | Some pid \<Rightarrow> pid \<in> suite_id ` set suites) suites"

definition acyclic_snapshot :: "suite list \<Rightarrow> bool" where
  "acyclic_snapshot suites =
     (\<forall>d k. d \<in> set suites \<and> 0 < k \<longrightarrow> ancestor_after (index_by_id suites) k (Some d) \<noteq> Some d)"


text \<open>Three suites in a chain, and two suites that are each other's parent.\<close>

definition chain3 :: "suite list" where
  "chain3 =
     [\<lparr>suite_id = ''1'', suite_name = ''root'', parentId = None\<rparr>,
      \<lparr>suite_id = ''2'', suite_name = ''mid'', parentId = Some ''1''\<rparr>,
      \<lparr>suite_id = ''3'', suite_name = ''leaf'', parentId = Some ''2''\<rparr>]"

definition cycle2 :: "suite list" where
  "cycle2 =
     [\<lparr>suite_id = ''1'', suite_name = ''a'', parentId = Some ''2''\<rparr>,
      \<lparr>suite_id = ''2'', suite_name = ''b'', parentId = Some ''1''\<rparr>]"

text \<open>A suite whose parent id names no suite of the list.\<close>

definition dangling1 :: "suite list" where
  "dangling1 = [\<lparr>suite_id = ''2'', suite_name = ''Checkout'', parentId = Some ''99''\<rparr>]"

text \<open>What a cache built by \<open>path_for\<close> holds: the joined result of a walk that ended.\<close>

definition cache_ok :: "(string \<rightharpoonup> suite) \<Rightarrow> (string \<rightharpoonup> string) \<Rightarrow> bool" where
  "cache_ok by_id cache =
     (\<forall>sid p. cache sid = Some p \<longrightarrow>
        (\<exists>c parts. by_id sid = Some c \<and> walk_up by_id (Some c) [] = Some parts
            \<and> p = join ''/'' (rev parts)))"

section \<open>Plan resolution\<close>

text \<open>
  A string is a sequence of code points below 256, one \<open>char\<close> each. \<open>lower\<close> is
  \<open>str.lower\<close> on such strings: the letters A to Z and the capital letters U+00C0 to
  U+00DE (the sign U+00D7 apart) move up by 32. \<open>strip\<close> is \<open>str.strip\<close>: the
  characters for which \<open>str.isspace\<close> holds are the tab, line feed, vertical tab, form
  feed, carriage return, the separators 0x1C to 0x1F, the space, U+0085 and U+00A0.
  \<open>w in s\<close> on strings is \<open>sublist w s\<close>.
\<close>

definition lower_char :: "char \<Rightarrow> char" where
  "lower_char c =
     (let n = (of_char c :: nat)
      in if (65 \<le> n \<and> n \<le> 90) \<or> (192 \<le> n \<and> n \<le> 222 \<and> n \<noteq> 215)
         then char_of (n + 32)
         else c)"

definition lower :: "string \<Rightarrow> string" where
  "lower s = map lower_char s"

definition is_space :: "char \<Rightarrow> bool" where
  "is_space c =
     (c \<in> set [CHR 0x09, CHR 0x0A, CHR 0x0B, CHR 0x0C, CHR 0x0D,
                CHR 0x1C, CHR 0x1D, CHR 0x1E, CHR 0x1F, CHR 0x20, CHR 0x85, CHR 0xA0])"

definition strip :: "string \<Rightarrow> string" where
  "strip s = rev (dropWhile is_space (rev (dropWhile is_space s)))"

text \<open>\<open>str(n)\<close> of an integer.\<close>

definition show_int :: "int \<Rightarrow> string" where
  "show_int i = (if i < 0 then ''-'' @ show_nat (nat (- i)) else show_nat (nat i))"

text \<open>
  A plan of the list under \<open>value\<close> in the answer to the plans request; a key that is
  absent is \<open>None\<close>. \<open>resolve_plan_id_by_name\<close> is modelled from this list on (a
  failed request has raised \<open>SystemExit\<close> in \<open>get_json\<close> before).
\<close>

record plan =
  plan_ident :: "int option"
  plan_label :: "string option"

text \<open>The two list comprehensions' conditions; \<open>p.get("name", "")\<close> is \<open>plan_name_or_empty\<close>.\<close>

definition plan_name_or_empty :: "plan \<Rightarrow> string" where
  "plan_name_or_empty p = (case plan_label p of None \<Rightarrow> [] | Some n \<Rightarrow> n)"

definition exact_match :: "string \<Rightarrow> plan \<Rightarrow> bool" where
  "exact_match wanted p = (strip (lower (plan_name_or_empty p)) = wanted)"

definition partial_match :: "string \<Rightarrow> plan \<Rightarrow> bool" where
  "partial_match wanted p = sublist wanted (lower (plan_name_or_empty p))"

text \<open>
  \<open>pid = str(exact[0]["id"])\<close>, then the message that reads \<open>exact[0]['name']\<close>, then
  \<open>return pid\<close>.
\<close>

definition selected_plan :: "plan \<Rightarrow> error + string" where
  "selected_plan p =
     (case plan_ident p of
        None \<Rightarrow> Inl (KeyError ''id'')
      | Some i \<Rightarrow>
          (case plan_label p of
             None \<Rightarrow> Inl (KeyError ''name'')
           | Some n \<Rightarrow> Inr (show_int i)))"

definition resolve_plan_id_by_name :: "plan list \<Rightarrow> string \<Rightarrow> error + string" where
  "resolve_plan_id_by_name plans plan_name =
     (let wanted = strip (lower plan_name);
          exact = filter (exact_match wanted) plans
      in case exact of
           p # _ \<Rightarrow> selected_plan p
         | [] \<Rightarrow>
             (let partial = filter (partial_match wanted) plans
              in case partial of
                   [] \<Rightarrow> Inl (SystemExit (''Plan '' @ [CHR 0x27] @ plan_name @ [CHR 0x27] @ '' not found''))
                 | p # _ \<Rightarrow> selected_plan p))"

definition demo_plans :: "plan list" where
  "demo_plans =
     [\<lparr>plan_ident = Some 11, plan_label = Some ''UAT Release 2 (archive)''\<rparr>,
      \<lparr>plan_ident = Some 12, plan_label = Some '' uat release 2 ''\<rparr>,
      \<lparr>plan_ident = Some 13, plan_label = Some ''Regression''\<rparr>]"

section \<open>Orchestration\<close>

subsection \<open>Runs, results and the backfill map\<close>

text \<open>
  \<open>int(s)\<close> on a string: the whitespace that \<open>int\<close> drops around the number is the
  tab, line feed, vertical tab, form feed, carriage return, the space, U+0085 and U+00A0
  (not the separators 0x1C to 0x1F); a sign may come first, and the decimal digits may be
  grouped by single underscores; \<open>None\<close> stands for \<open>ValueError\<close>.
\<close>

definition is_int_space :: "char \<Rightarrow> bool" where
  "is_int_space c =
     (c \<in> set [CHR 0x09, CHR 0x0A, CHR 0x0B, CHR 0x0C, CHR 0x0D, CHR 0x20, CHR 0x85, CHR 0xA0])"

definition int_strip :: "string \<Rightarrow> string" where
  "int_strip s = rev (dropWhile is_int_space (rev (dropWhile is_int_space s)))"

definition digit_of :: "char \<Rightarrow> nat option" where
  "digit_of c = map_of (zip ''0123456789'' [0, 1, 2, 3, 4, 5, 6, 7, 8, 9]) c"

fun digits_value :: "nat \<Rightarrow> string \<Rightarrow> nat option" where
  "digits_value acc [] = Some acc"
| "digits_value acc (c # cs) =
     (if c = CHR ''_''
      then (case cs of
              [] \<Rightarrow> None
            | d # _ \<Rightarrow> if d = CHR ''_'' then None else digits_value acc cs)
      else (case digit_of c of
              None \<Rightarrow> None
            | Some d \<Rightarrow> digits_value (10 * acc + d) cs))"

definition unsigned_value :: "string \<Rightarrow> nat option" where
  "unsigned_value s =
     (case s of
        [] \<Rightarrow> None
      | c # _ \<Rightarrow> if digit_of c = None then None else digits_value 0 s)"

definition py_int :: "string \<Rightarrow> int option" where
  "py_int s =
     (case int_strip s of
        [] \<Rightarrow> None
      | c # cs \<Rightarrow>
          if c = CHR ''-'' then map_option (\<lambda>n. - int n) (unsigned_value cs)
          else if c = CHR ''+'' then map_option int (unsigned_value cs)
          else map_option int (unsigned_value (c # cs)))"

text \<open>
  A run and a result as the runs and results endpoints return them; \<open>testPoint_id\<close> is
  the \<open>id\<close> of the nested \<open>testPoint\<close> object (\<open>None\<close> when the object or its id is
  absent) and \<open>pointId\<close> is the flat field.
\<close>

record run =
  run_id :: "int option"
  lastUpdatedDate :: "string option"
  run_completedDate :: "string option"

record test_result =
  testPoint_id :: "string option"
  pointId :: "int option"
  result_outcome :: "string option"
  completedDate :: "string option"
  startedDate :: "string option"

text \<open>
  \<open>runs.sort(key = lastUpdatedDate or completedDate or "", reverse=True)\<close>: descending,
  runs with equal keys staying in their order.
\<close>

definition run_sort_key :: "run \<Rightarrow> string" where
  "run_sort_key r =
     (case py_or (py_or (lastUpdatedDate r) (run_completedDate r)) (Some '''') of
        None \<Rightarrow> [] | Some k \<Rightarrow> k)"

definition list_runs_for_plan :: "error + run list \<Rightarrow> error + run list" where
  "list_runs_for_plan fetched =
     (case fetched of
        Inl e \<Rightarrow> Inl e
      | Inr runs \<Rightarrow> Inr (rev (sort_key run_sort_key (rev runs))))"

text \<open>The normalisation of \<open>pointId\<close> in \<open>list_results_for_run\<close>, one result at a time.\<close>

fun normalise_results :: "test_result list \<Rightarrow> error + test_result list" where
  "normalise_results [] = Inr []"
| "normalise_results (r # rs) =
     (case (case testPoint_id r of
              Some t \<Rightarrow> (case py_int t of
                           None \<Rightarrow> Inl (ValueError t)
                         | Some n \<Rightarrow> Inr (r\<lparr>pointId := Some n\<rparr>))
            | None \<Rightarrow> Inr r) of
        Inl e \<Rightarrow> Inl e
      | Inr r1 \<Rightarrow>
          (case normalise_results rs of
             Inl e \<Rightarrow> Inl e
           | Inr rs1 \<Rightarrow> Inr (r1 # rs1)))"

definition list_results_for_run :: "error + test_result list \<Rightarrow> error + test_result list" where
  "list_results_for_run fetched =
     (case fetched of Inl e \<Rightarrow> Inl e | Inr results \<Rightarrow> normalise_results results)"

record backfill_entry =
  bf_outcome :: "string option"
  bf_ts :: "string option"

definition or_empty :: "string option \<Rightarrow> string" where
  "or_empty v = (case py_or v (Some '''') of None \<Rightarrow> [] | Some s \<Rightarrow> s)"

text \<open>The body of \<open>for res in list_results_for_run(rid)\<close> in \<open>main\<close>.\<close>

definition backfill_result ::
  "run \<Rightarrow> test_result \<Rightarrow> (int \<rightharpoonup> backfill_entry) \<Rightarrow> (int \<rightharpoonup> backfill_entry)" where
  "backfill_result rn res latest_by_point =
     (case pointId res of
        None \<Rightarrow> latest_by_point
      | Some pid \<Rightarrow>
          let ts = py_or (py_or (completedDate res) (startedDate res)) (lastUpdatedDate rn)
          in case latest_by_point pid of
               None \<Rightarrow> latest_by_point(pid \<mapsto> \<lparr>bf_outcome = result_outcome res, bf_ts = ts\<rparr>)
             | Some prev \<Rightarrow>
                 if or_empty ts > or_empty (bf_ts prev)
                 then latest_by_point(pid \<mapsto> \<lparr>bf_outcome = result_outcome res, bf_ts = ts\<rparr>)
                 else latest_by_point)"

text \<open>
  The loop \<open>for run in runs[:50]\<close> inside the \<open>try\<close>: an exception ends the loop and the
  handlers only print a warning, so the map built so far is what \<open>main\<close> goes on with.
\<close>

fun backfill_runs ::
  "(int \<Rightarrow> error + test_result list) \<Rightarrow> run list \<Rightarrow> (int \<rightharpoonup> backfill_entry)
     \<Rightarrow> (int \<rightharpoonup> backfill_entry)" where
  "backfill_runs fetched_results [] latest_by_point = latest_by_point"
| "backfill_runs fetched_results (rn # rns) latest_by_point =
     (case run_id rn of
        None \<Rightarrow> latest_by_point
      | Some rid \<Rightarrow>
          (case list_results_for_run (fetched_results rid) of
             Inl e \<Rightarrow> latest_by_point
           | Inr results \<Rightarrow>
               backfill_runs fetched_results rns
                 (foldl (\<lambda>m res. backfill_result rn res m) latest_by_point results)))"

definition build_backfill ::
  "error + run list \<Rightarrow> (int \<Rightarrow> error + test_result list) \<Rightarrow> (int \<rightharpoonup> backfill_entry)" where
  "build_backfill fetched_runs fetched_results =
     (case list_runs_for_plan fetched_runs of
        Inl e \<Rightarrow> Map.empty
      | Inr runs \<Rightarrow> backfill_runs fetched_results (take 50 runs) Map.empty)"

subsection \<open>Aggregation\<close>

definition get_points_for_suite :: "error + point list \<Rightarrow> error + point list" where
  "get_points_for_suite fetched =
     (case fetched of
        Inl e \<Rightarrow> Inl e
      | Inr pts \<Rightarrow> Inr (map (\<lambda>p. p\<lparr>resolvedOutcome := resolve_point_outcome p\<rparr>) pts))"

record bucket =
  b_name :: "string option"
  b_outcome :: "string option"
  b_paths :: "string list"

type_synonym aggregate = "(string \<times> (int \<times> bucket) list) list"

text \<open>
  The body of \<open>for p in pts\<close> in \<open>main\<close>: \<open>point_test_case\<close> is
  \<open>p.get("testCase") or {}\<close>, \<open>observed_outcome\<close> is
  \<open>p.get("resolvedOutcome") or p.get("outcome") or "NeverRun"\<close>, and \<open>merged_bucket\<close>
  is the bucket that \<open>setdefault\<close> returns (the one stored under the key, or a new one
  with the outcome \<open>None\<close>) after its three updates.
\<close>

definition point_test_case :: "point \<Rightarrow> test_case" where
  "point_test_case p =
     (case testCase p of None \<Rightarrow> \<lparr>tc_id = None, tc_name = None\<rparr> | Some t \<Rightarrow> t)"

definition observed_outcome :: "point \<Rightarrow> string option" where
  "observed_outcome p = py_or (py_or (resolvedOutcome p) (outcome p)) (Some ''NeverRun'')"

definition merged_bucket ::
  "string option \<Rightarrow> string option \<Rightarrow> string \<Rightarrow> bucket option \<Rightarrow> bucket" where
  "merged_bucket tcname outc path_str stored =
     (let b0 = (case stored of
                  None \<Rightarrow> \<lparr>b_name = tcname, b_outcome = None, b_paths = []\<rparr>
                | Some b \<Rightarrow> b)
      in \<lparr>b_name = py_or (b_name b0) tcname,
          b_outcome = worse (b_outcome b0) outc,
          b_paths = List.insert path_str (b_paths b0)\<rparr>)"

definition merge_point :: "string \<Rightarrow> string \<Rightarrow> point \<Rightarrow> aggregate \<Rightarrow> error + aggregate" where
  "merge_point tid path_str p agg =
     (let tc = point_test_case p;
          tcid = tc_id tc;
          tcname = tc_name tc;
          outc = observed_outcome p
      in if \<not> truthy tcid then Inr agg
         else (case map_of agg tid of
                 None \<Rightarrow> Inl (KeyError tid)
               | Some inner \<Rightarrow>
                   (case py_int (or_empty tcid) of
                      None \<Rightarrow> Inl (ValueError (or_empty tcid))
                    | Some key \<Rightarrow>
                        Inr (AList.update tid
                               (AList.update key
                                  (merged_bucket tcname outc path_str (map_of inner key)) inner)
                               agg))))"

fun merge_points :: "string \<Rightarrow> string \<Rightarrow> point list \<Rightarrow> aggregate \<Rightarrow> error + aggregate" where
  "merge_points tid path_str [] agg = Inr agg"
| "merge_points tid path_str (p # ps) agg =
     (case merge_point tid path_str p agg of
        Inl e \<Rightarrow> Inl e
      | Inr agg1 \<Rightarrow> merge_points tid path_str ps agg1)"

text \<open>The loop \<open>for s in suites\<close> of \<open>main\<close>.\<close>

fun suite_loop ::
  "(string \<rightharpoonup> suite) \<Rightarrow> (string \<rightharpoonup> string) \<Rightarrow> (string \<Rightarrow> error + point list)
     \<Rightarrow> suite list \<Rightarrow> aggregate \<Rightarrow> (error + aggregate) option" where
  "suite_loop by_id suite_path fetched_points [] agg = Some (Inr agg)"
| "suite_loop by_id suite_path fetched_points (s # ss) agg =
     (case get_points_for_suite (fetched_points (suite_id s)) of
        Inl e \<Rightarrow> Some (Inl e)
      | Inr pts \<Rightarrow>
          if pts = [] then suite_loop by_id suite_path fetched_points ss agg
          else (case top_ancestor by_id (suite_id s) of
                  None \<Rightarrow> None
                | Some (Inl e) \<Rightarrow> Some (Inl e)
                | Some (Inr tid) \<Rightarrow>
                    (case by_id tid of
                       None \<Rightarrow> Some (Inl (KeyError tid))
                     | Some top_suite \<Rightarrow>
                         let path_str = dict_get suite_path (suite_id s) (suite_name s)
                         in (case merge_points tid path_str pts agg of
                               Inl e \<Rightarrow> Some (Inl e)
                             | Inr agg1 \<Rightarrow> suite_loop by_id suite_path fetched_points ss agg1))))"

subsection \<open>Emitted rows\<close>

record row =
  TopSuiteId :: string
  TopSuiteName :: string
  TestCaseId :: int
  TestCaseName :: "string option"
  Outcome :: string
  Paths :: string
  NumPaths :: nat

definition make_row :: "suite \<Rightarrow> int \<times> bucket \<Rightarrow> row" where
  "make_row top_suite entry =
     (case entry of (tcid, info) \<Rightarrow>
        \<lparr>TopSuiteId = suite_id top_suite,
         TopSuiteName = suite_name top_suite,
         TestCaseId = tcid,
         TestCaseName = b_name info,
         Outcome = emitted_outcome (b_outcome info),
         Paths = join ''; '' (sort (b_paths info)),
         NumPaths = length (b_paths info)\<rparr>)"

text \<open>
  The rows of each top-level suite's CSV file, in the order of \<open>top_level\<close>; the combined
  file holds the same test cases with the same \<open>Outcome\<close> expression.
\<close>

fun emit_rows :: "suite list \<Rightarrow> aggregate \<Rightarrow> error + (string \<times> row list) list" where
  "emit_rows [] agg = Inr []"
| "emit_rows (top_suite # tops) agg =
     (case map_of agg (suite_id top_suite) of
        None \<Rightarrow> Inl (KeyError (suite_id top_suite))
      | Some inner \<Rightarrow>
          (case emit_rows tops agg of
             Inl e \<Rightarrow> Inl e
           | Inr files \<Rightarrow> Inr ((suite_name top_suite, map (make_row top_suite) inner) # files)))"

text \<open>
  \<open>main\<close> from \<open>by_id = ...\<close> on. Its inputs are the suites \<open>list_suites\<close> returned and
  what the paginated fetches of runs, of the results of a run and of the points of a suite
  return (a collection, or the \<open>SystemExit\<close> they raise).
\<close>

definition main ::
  "suite list \<Rightarrow> error + run list \<Rightarrow> (int \<Rightarrow> error + test_result list)
     \<Rightarrow> (string \<Rightarrow> error + point list) \<Rightarrow> (error + (string \<times> row list) list) option" where
  "main suites fetched_runs fetched_results fetched_points =
     (let by_id = index_by_id suites;
          top_level = filter (\<lambda>s. parentId s = None) suites
      in case build_suite_path_lookup suites of
           None \<Rightarrow> None
         | Some (Inl e) \<Rightarrow> Some (Inl e)
         | Some (Inr suite_path) \<Rightarrow>
             let latest_by_point = build_backfill fetched_runs fetched_results;
                 agg0 = foldl (\<lambda>a s. AList.update (suite_id s) [] a) [] top_level
             in (case suite_loop by_id suite_path fetched_points suites agg0 of
                   None \<Rightarrow> None
                 | Some (Inl e) \<Rightarrow> Some (Inl e)
                 | Some (Inr agg) \<Rightarrow> Some (emit_rows top_level agg)))"

text \<open>Every bucket of an aggregate holds an unset outcome or a recognised status.\<close>

definition agg_settled :: "aggregate \<Rightarrow> bool" where
  "agg_settled agg =
     (\<forall>tid inner key b. (tid, inner) \<in> set agg \<longrightarrow> (key, b) \<in> set inner \<longrightarrow> settled (b_outcome b))"


text \<open>
  A plan with a top-level suite and one child suite. The child holds four points: point 7
  (test case 42) carries no outcome in any of its fields, points 8 and 9 (test case 43)
  carry the unknown status \<open>Flaky\<close> and \<open>Passed\<close>, point 10 (test case 44) carries
  \<open>Flaky\<close> only. The plan has one run, whose single result is \<open>Failed\<close> for point 7.
\<close>

definition demo_suites :: "suite list" where
  "demo_suites =
     [\<lparr>suite_id = ''1'', suite_name = ''Commerce'', parentId = None\<rparr>,
      \<lparr>suite_id = ''2'', suite_name = ''Checkout'', parentId = Some ''1''\<rparr>]"

definition demo_point :: "int \<Rightarrow> string option \<Rightarrow> string \<Rightarrow> string \<Rightarrow> point" where
  "demo_point pid outc tcid tcname =
     \<lparr>point_id = Some pid, outcome = outc, mostRecentResult = None, lastTestRun = None,
      lastResultDetails = None,
      testCase = Some \<lparr>tc_id = Some tcid, tc_name = Some tcname\<rparr>,
      resolvedOutcome = None\<rparr>"

definition demo_points :: "string \<Rightarrow> error + point list" where
  "demo_points sid =
     (if sid = ''2''
      then Inr [demo_point 7 None ''42'' ''Login'',
                demo_point 8 (Some ''Flaky'') ''43'' ''Pay'',
                demo_point 9 (Some ''Passed'') ''43'' ''Pay'',
                demo_point 10 (Some ''Flaky'') ''44'' ''Refund'']
      else Inr [])"

definition demo_runs :: "error + run list" where
  "demo_runs =
     Inr [\<lparr>run_id = Some 100, lastUpdatedDate = Some ''2024-05-02T09:00:00Z'',
           run_completedDate = None\<rparr>]"

definition demo_results :: "int \<Rightarrow> error + test_result list" where
  "demo_results rid =
     (if rid = 100
      then Inr [\<lparr>testPoint_id = Some ''7'', pointId = None, result_outcome = Some ''Failed'',
                 completedDate = Some ''2024-05-02T10:00:00Z'', startedDate = None\<rparr>]
      else Inr [])"

definition demo_files :: "(string \<times> row list) list" where
  "demo_files =
     [(''Commerce'',
       [\<lparr>TopSuiteId = ''1'', TopSuiteName = ''Commerce'', TestCaseId = 42,
         TestCaseName = Some ''Login'', Outcome = ''NeverRun'',
         Paths = ''Commerce/Checkout'', NumPaths = 1\<rparr>,
        \<lparr>TopSuiteId = ''1'', TopSuiteName = ''Commerce'', TestCaseId = 43,
         TestCaseName = Some ''Pay'', Outcome = ''Passed'',
         Paths = ''Commerce/Checkout'', NumPaths = 1\<rparr>,
        \<lparr>TopSuiteId = ''1'', TopSuiteName = ''Commerce'', TestCaseId = 44,
         TestCaseName = Some ''Refund'', Outcome = ''NeverRun'',
         Paths = ''Commerce/Checkout'', NumPaths = 1\<rparr>])]"

section \<open>Properties of the outcome reconciler\<close>

lemma rank_cases:
  "dict_get OUTCOME_ORDER a (-1) = -1
   \<or> a = Some ''Failed'' \<or> a = Some ''Blocked'' \<or> a = Some ''Paused''
   \<or> a = Some ''Active'' \<or> a = Some ''NotApplicable'' \<or> a = Some ''Passed''"
  by (simp add: dict_get_def OUTCOME_ORDER_def)

lemma rank_values:
  "dict_get OUTCOME_ORDER (Some ''Failed'') (-1) = 6"
  "dict_get OUTCOME_ORDER (Some ''Blocked'') (-1) = 5"
  "dict_get OUTCOME_ORDER (Some ''Paused'') (-1) = 4"
  "dict_get OUTCOME_ORDER (Some ''Active'') (-1) = 3"
  "dict_get OUTCOME_ORDER (Some ''NotApplicable'') (-1) = 2"
  "dict_get OUTCOME_ORDER (Some ''Passed'') (-1) = 0"
  "dict_get OUTCOME_ORDER None (-1) = -1"
  by (simp_all add: dict_get_def OUTCOME_ORDER_def)

lemma rank_lower: "-1 \<le> dict_get OUTCOME_ORDER a (-1)"
  using rank_cases [of a] by (auto simp: rank_values)

lemma rank_recognised:
  "0 \<le> dict_get OUTCOME_ORDER a (-1) \<longleftrightarrow> a \<in> Some ` set statuses"
  using rank_cases [of a] by (auto simp: rank_values statuses_def)

lemma rank_worse:
  "dict_get OUTCOME_ORDER (worse a b) (-1) = max (dict_get OUTCOME_ORDER a (-1)) (dict_get OUTCOME_ORDER b (-1))"
  by (simp add: worse_def Let_def max_def)

lemma settled_cases:
  "settled a \<longleftrightarrow> a = None \<or> a = Some ''Failed'' \<or> a = Some ''Blocked'' \<or> a = Some ''Paused''
     \<or> a = Some ''Active'' \<or> a = Some ''NotApplicable'' \<or> a = Some ''Passed''"
  unfolding settled_def statuses_def by auto

lemma settled_rank: "settled a \<longleftrightarrow> a = None \<or> 0 \<le> dict_get OUTCOME_ORDER a (-1)"
  by (simp add: settled_def rank_recognised)

lemma settled_worse: "settled a \<Longrightarrow> settled (worse a b)"
  unfolding settled_rank using rank_lower [of a]
  by (auto simp: worse_def Let_def rank_values)

lemma settled_rank_inj:
  assumes "settled a" "settled b"
    and "dict_get OUTCOME_ORDER a (-1) = dict_get OUTCOME_ORDER b (-1)"
  shows "a = b"
  using assms unfolding settled_cases
  by (elim disjE) (simp_all add: rank_values)

lemma worse_right_commute:
  assumes "settled z"
  shows "worse (worse z x) y = worse (worse z y) x"
proof (rule settled_rank_inj)
  show "settled (worse (worse z x) y)" "settled (worse (worse z y) x)"
    using assms by (simp_all add: settled_worse)
  show "dict_get OUTCOME_ORDER (worse (worse z x) y) (-1) = dict_get OUTCOME_ORDER (worse (worse z y) x) (-1)"
    by (simp add: rank_worse max.assoc max.commute max.left_commute)
qed

lemma settled_foldl: "settled a \<Longrightarrow> settled (foldl worse a xs)"
  by (induction xs arbitrary: a) (simp_all add: settled_worse)

lemma ranks_descend:
  "sorted_wrt (\<lambda>a b. dict_get OUTCOME_ORDER (Some b) (-1) < dict_get OUTCOME_ORDER (Some a) (-1)) statuses"
  by (simp add: statuses_def rank_values)

text \<open>
  \<open>reconcile\<close> is what \<open>main\<close> computes for a test case: the outcome of the bucket after
  the observed outcomes of its points have been merged one by one, the first merge
  creating the bucket.
\<close>

lemma bucket_outcome_reconcile:
  "b_outcome (foldl (\<lambda>b outc. merged_bucket tcname outc path_str (Some b))
      (merged_bucket tcname outc0 path_str None) outcomes)
     = reconcile (outc0 # outcomes)"
proof (induction outcomes rule: rev_induct)
  case Nil
  show ?case by (simp add: merged_bucket_def reconcile_def)
next
  case (snoc x xs)
  then show ?case by (simp add: merged_bucket_def reconcile_def)
qed

lemma reconcile_settled: "settled (reconcile outcomes)"
  unfolding reconcile_def by (rule settled_foldl) (simp add: settled_def)

lemma worse_assoc_settled:
  assumes "settled a" and "settled b"
  shows "worse (worse a b) y = worse a (worse b y)"
proof (rule settled_rank_inj)
  show "settled (worse (worse a b) y)"
    using assms(1) by (simp add: settled_worse)
  show "settled (worse a (worse b y))"
    using assms(1) by (simp add: settled_worse)
  show "dict_get OUTCOME_ORDER (worse (worse a b) y) (-1)
      = dict_get OUTCOME_ORDER (worse a (worse b y)) (-1)"
    by (simp add: rank_worse max.assoc)
qed

lemma worse_None_right: "worse a None = a"
  using rank_lower [of a] by (simp add: worse_def rank_values)

lemma reconcile_append: "reconcile (xs @ ys) = worse (reconcile xs) (reconcile ys)"
proof (induction ys rule: rev_induct)
  case Nil
  have "reconcile [] = None" by (simp add: reconcile_def)
  then show ?case by (simp add: worse_None_right)
next
  case (snoc y ys)
  have "reconcile (xs @ ys @ [y]) = worse (reconcile (xs @ ys)) y"
    by (simp add: reconcile_def)
  also have "\<dots> = worse (worse (reconcile xs) (reconcile ys)) y"
    by (simp add: snoc.IH)
  also have "\<dots> = worse (reconcile xs) (worse (reconcile ys) y)"
    by (rule worse_assoc_settled) (rule reconcile_settled)+
  also have "worse (reconcile ys) y = reconcile (ys @ [y])"
    by (simp add: reconcile_def)
  finally show ?case .
qed

lemma reconcile_mset:
  assumes "mset xs = mset ys"
  shows "reconcile xs = reconcile ys"
proof -
  have "fold (\<lambda>x a. worse a x) xs None = fold (\<lambda>x a. worse a x) ys None"
  proof (rule fold_permuted_eq [where P = settled])
    show "mset xs = mset ys" by (rule assms)
    show "settled None" by (simp add: settled_def)
    show "\<And>x z. x \<in> set xs \<Longrightarrow> settled z \<Longrightarrow> settled (worse z x)"
      by (rule settled_worse)
    show "\<And>x y z. x \<in> set xs \<Longrightarrow> y \<in> set xs \<Longrightarrow> settled z \<Longrightarrow>
        worse (worse z y) x = worse (worse z x) y"
      by (rule worse_right_commute)
  qed
  then show ?thesis by (simp add: reconcile_def foldl_conv_fold)
qed


text \<open>
  Claim C4. Reconciling a sequence of raw outcomes (any strings, the empty string and
  \<open>None\<close> included) does not depend on the order of the sequence: two sequences
  with the same multiset of outcomes leave the same value in the bucket and emit the
  same \<open>Outcome\<close>. Reconciled values combine through \<open>worse\<close>, and on them
  \<open>worse\<close> is commutative and associative.
\<close>

theorem reconcile_permutation:
  "(mset xs = mset ys \<longrightarrow>
      reconcile xs = reconcile ys
    \<and> emitted_outcome (reconcile xs) = emitted_outcome (reconcile ys))
   \<and> reconcile (xs @ ys) = reconcile (ys @ xs)
   \<and> reconcile (xs @ ys) = worse (reconcile xs) (reconcile ys)
   \<and> worse (reconcile xs) (reconcile ys) = worse (reconcile ys) (reconcile xs)
   \<and> worse (worse (reconcile xs) (reconcile ys)) (reconcile zs)
       = worse (reconcile xs) (worse (reconcile ys) (reconcile zs))"
proof (intro conjI impI)
  assume "mset xs = mset ys"
  then show "reconcile xs = reconcile ys" by (rule reconcile_mset)
  then show "emitted_outcome (reconcile xs) = emitted_outcome (reconcile ys)" by simp
next
  show swap: "reconcile (xs @ ys) = reconcile (ys @ xs)"
    by (rule reconcile_mset) simp
  show "reconcile (xs @ ys) = worse (reconcile xs) (reconcile ys)"
    by (rule reconcile_append)
  show "worse (reconcile xs) (reconcile ys) = worse (reconcile ys) (reconcile xs)"
    using swap by (simp add: reconcile_append)
  show "worse (worse (reconcile xs) (reconcile ys)) (reconcile zs)
       = worse (reconcile xs) (worse (reconcile ys) (reconcile zs))"
    by (rule worse_assoc_settled) (rule reconcile_settled)+
qed

theorem reconcile_permutation_witness:
  "mset [Some ''Passed'', None, Some ''Flaky'', Some ''Failed'', Some '''']
     = mset [Some ''Failed'', Some '''', Some ''Flaky'', Some ''Passed'', None]
   \<and> reconcile [Some ''Passed'', None, Some ''Flaky'', Some ''Failed'', Some ''''] = Some ''Failed''
   \<and> reconcile [Some ''Failed'', Some '''', Some ''Flaky'', Some ''Passed'', None] = Some ''Failed''
   \<and> reconcile [Some ''Flaky'', Some ''Odd''] = None
   \<and> reconcile [Some ''Odd'', Some ''Flaky''] = None"
proof -
  have h: "mset [Some ''Passed'', None, Some ''Flaky'', Some ''Failed'', Some '''']
     = mset [Some ''Failed'', Some '''', Some ''Flaky'', Some ''Passed'', None]"
    by simp
  have g: "mset [Some ''Flaky'', Some ''Odd''] = mset [Some ''Odd'', Some ''Flaky'']"
    by simp
  have 1: "reconcile [Some ''Passed'', None, Some ''Flaky'', Some ''Failed'', Some ''''] = Some ''Failed''"
    by (simp add: reconcile_def worse_def dict_get_def OUTCOME_ORDER_def)
  have 2: "reconcile [Some ''Flaky'', Some ''Odd''] = None"
    by (simp add: reconcile_def worse_def dict_get_def OUTCOME_ORDER_def)
  from reconcile_permutation [THEN conjunct1, THEN mp, OF h]
    reconcile_permutation [THEN conjunct1, THEN mp, OF g] h 1 2
  show ?thesis by simp
qed


text \<open>
  Claim C5. \<open>worse\<close> returns the argument of higher precedence in the order
  Failed, Blocked, Paused, Active, NotApplicable, Passed (whichever side it stands on);
  every value that is not a recognised status (unset, empty, unknown) loses to every
  recognised status, Passed included; two such values tie and the first argument is
  returned, as it is when both arguments are equal.
\<close>

theorem worse_precedence:
  "(\<forall>i j. i < j \<and> j < length statuses \<longrightarrow>
        worse (Some (statuses ! i)) (Some (statuses ! j)) = Some (statuses ! i)
      \<and> worse (Some (statuses ! j)) (Some (statuses ! i)) = Some (statuses ! i))
   \<and> (\<forall>u s. u \<notin> Some ` set statuses \<and> s \<in> set statuses \<longrightarrow>
        worse u (Some s) = Some s \<and> worse (Some s) u = Some s)
   \<and> (\<forall>u v. u \<notin> Some ` set statuses \<and> v \<notin> Some ` set statuses \<longrightarrow> worse u v = u)
   \<and> (\<forall>a. worse a a = a)"
proof (intro conjI allI impI)
  fix i j assume "i < j \<and> j < length statuses"
  then have lt: "dict_get OUTCOME_ORDER (Some (statuses ! j)) (-1)
      < dict_get OUTCOME_ORDER (Some (statuses ! i)) (-1)"
    using sorted_wrt_nth_less [OF ranks_descend, of i j] by simp
  from lt show "worse (Some (statuses ! i)) (Some (statuses ! j)) = Some (statuses ! i)"
    by (simp add: worse_def)
  from lt show "worse (Some (statuses ! j)) (Some (statuses ! i)) = Some (statuses ! i)"
    by (simp add: worse_def)
next
  fix u s assume h: "u \<notin> Some ` set statuses \<and> s \<in> set statuses"
  then have u: "dict_get OUTCOME_ORDER u (-1) = -1"
    using rank_recognised [of u] rank_lower [of u] by linarith
  from h have s: "0 \<le> dict_get OUTCOME_ORDER (Some s) (-1)"
    using rank_recognised [of "Some s"] by blast
  from u s show "worse u (Some s) = Some s" by (simp add: worse_def)
  from u s show "worse (Some s) u = Some s" by (simp add: worse_def)
next
  fix u v assume h: "u \<notin> Some ` set statuses \<and> v \<notin> Some ` set statuses"
  then have "dict_get OUTCOME_ORDER u (-1) = -1" "dict_get OUTCOME_ORDER v (-1) = -1"
    using rank_recognised [of u] rank_lower [of u] rank_recognised [of v] rank_lower [of v] by linarith+
  then show "worse u v = u" by (simp add: worse_def)
next
  fix a show "worse a a = a" by (simp add: worse_def)
qed

theorem worse_precedence_witness:
  "worse (Some ''Failed'') (Some ''Blocked'') = Some ''Failed''
   \<and> worse (Some ''Blocked'') (Some ''Failed'') = Some ''Failed''
   \<and> worse (Some ''Weird'') (Some ''Passed'') = Some ''Passed''
   \<and> worse (Some ''Passed'') None = Some ''Passed''
   \<and> worse (Some '''') (Some ''Weird'') = Some ''''"
proof -
  have a: "(0::nat) < 1 \<and> 1 < length statuses" by (simp add: statuses_def)
  have b: "Some ''Weird'' \<notin> Some ` set statuses \<and> ''Passed'' \<in> set statuses" by (simp add: statuses_def)
  have c: "None \<notin> Some ` set statuses \<and> ''Passed'' \<in> set statuses" by (simp add: statuses_def)
  have d: "Some '''' \<notin> Some ` set statuses \<and> Some ''Weird'' \<notin> Some ` set statuses" by (simp add: statuses_def)
  have n: "statuses ! 0 = ''Failed''" "statuses ! Suc 0 = ''Blocked''" by (simp_all add: statuses_def)
  note ordered = worse_precedence [THEN conjunct1, THEN spec, THEN spec, THEN mp, OF a]
  note unknown = worse_precedence [THEN conjunct2, THEN conjunct1, THEN spec, THEN spec, THEN mp]
  note ties = worse_precedence [THEN conjunct2, THEN conjunct2, THEN conjunct1, THEN spec, THEN spec, THEN mp, OF d]
  from ordered unknown [OF b] unknown [OF c] ties show ?thesis by (simp add: n)
qed

text \<open>
  Claim C6. The resolved outcome of a point is the first non-empty value among the direct
  outcome, \<open>mostRecentResult.outcome\<close>, \<open>lastTestRun.outcome\<close> and
  \<open>lastResultDetails.outcome\<close>, probed in that order; when all four are empty the
  last one is returned as it is, so the result is non-empty exactly when some candidate is.
\<close>

theorem resolve_first_non_empty:
  "resolve_point_outcome p =
     (case List.find truthy (outcome_candidates p) of
        Some v \<Rightarrow> v
      | None \<Rightarrow> nested_outcome (lastResultDetails p))
   \<and> (truthy (resolve_point_outcome p) \<longleftrightarrow> (\<exists>v \<in> set (outcome_candidates p). truthy v))"
  by (auto simp: resolve_point_outcome_def outcome_candidates_def Let_def)

theorem resolve_first_non_empty_witness:
  "resolve_point_outcome
     \<lparr>point_id = Some 7, outcome = Some '''', mostRecentResult = None,
      lastTestRun = Some \<lparr>ref_outcome = Some ''Blocked''\<rparr>,
      lastResultDetails = Some \<lparr>ref_outcome = Some ''Failed''\<rparr>,
      testCase = None, resolvedOutcome = None\<rparr> = Some ''Blocked''
   \<and> resolve_point_outcome
     \<lparr>point_id = Some 8, outcome = None, mostRecentResult = Some \<lparr>ref_outcome = None\<rparr>,
      lastTestRun = None, lastResultDetails = Some \<lparr>ref_outcome = Some ''''\<rparr>,
      testCase = None, resolvedOutcome = None\<rparr> = Some ''''"
proof -
  let ?p = "\<lparr>point_id = Some 7, outcome = Some '''', mostRecentResult = None,
      lastTestRun = Some \<lparr>ref_outcome = Some ''Blocked''\<rparr>,
      lastResultDetails = Some \<lparr>ref_outcome = Some ''Failed''\<rparr>,
      testCase = None, resolvedOutcome = None\<rparr>"
  let ?q = "\<lparr>point_id = Some 8, outcome = None, mostRecentResult = Some \<lparr>ref_outcome = None\<rparr>,
      lastTestRun = None, lastResultDetails = Some \<lparr>ref_outcome = Some ''''\<rparr>,
      testCase = None, resolvedOutcome = None\<rparr>"
  from resolve_first_non_empty [of ?p, THEN conjunct1] resolve_first_non_empty [of ?q, THEN conjunct1]
  show ?thesis
    by (simp add: outcome_candidates_def nested_outcome_def truthy_def)
qed

section \<open>Properties of the versioned pagination client\<close>

lemma paginate_Return_aux:
  "paginate srv url params value_key ver token out s = Some y \<Longrightarrow>
   y = (Return res, s') \<Longrightarrow>
   (\<exists>chunks. pages_from srv url params value_key ver token s chunks s' \<and> res = out @ concat chunks)"
proof (induction arbitrary: res s' rule: paginate.raw_induct [rotated 1, consumes 1])
  case (1 pg srv url params value_key ver token out s y)
  obtain r s1 where r: "srv (page_request url params ver token) s = (r, s1)"
    by (cases "srv (page_request url params ver token) s")
  from "1.hyps" "1.prems" r have ok: "status_code r < 400"
    by (auto split: if_splits)
  from "1.hyps" "1.prems" r ok obtain d where d: "body_json r = Dict d"
    by (cases "body_json r") (auto split: if_splits)
  show ?case
  proof (cases "truthy (continuation r)")
    case False
    with "1.hyps" "1.prems" r ok d have "res = out @ page_chunk value_key d" "s' = s1"
      by (auto simp: Let_def)
    with r ok d False show ?thesis
      by (auto intro!: exI [of _ "[page_chunk value_key d]"] pages_from.last_page)
  next
    case True
    with "1.hyps" "1.prems" r ok d
    have "pg srv url params value_key ver (continuation r) (out @ page_chunk value_key d) s1
        = Some (Return res, s')"
      by (auto simp: Let_def)
    from "1.IH" [OF this refl] obtain chunks where
      "pages_from srv url params value_key ver (continuation r) s1 chunks s'"
      "res = (out @ page_chunk value_key d) @ concat chunks"
      by blast
    with r ok d True show ?thesis
      by (auto intro!: exI [of _ "page_chunk value_key d # chunks"] pages_from.next_page)
  qed
qed

lemma paginate_Break_aux:
  "paginate srv url params value_key ver token out s = Some y \<Longrightarrow>
   y = (Break e, s') \<Longrightarrow>
   (\<exists>r. fails_with srv url params value_key ver token s r s' \<and> e = error_text r)"
proof (induction arbitrary: e s' rule: paginate.raw_induct [rotated 1, consumes 1])
  case (1 pg srv url params value_key ver token out s y)
  obtain r s1 where r: "srv (page_request url params ver token) s = (r, s1)"
    by (cases "srv (page_request url params ver token) s")
  show ?case
  proof (cases "400 \<le> status_code r")
    case True
    with "1.hyps" "1.prems" r have "e = error_text r" "s' = s1"
      by (auto simp: error_text_def)
    with r True show ?thesis
      by (auto intro: fails_with.error_page)
  next
    case False
    with "1.hyps" "1.prems" r obtain d where d: "body_json r = Dict d"
      by (cases "body_json r") (auto split: if_splits)
    from "1.hyps" "1.prems" r False d have t: "truthy (continuation r)"
      by (auto simp: Let_def split: if_splits)
    with "1.hyps" "1.prems" r False d
    have "pg srv url params value_key ver (continuation r) (out @ page_chunk value_key d) s1
        = Some (Break e, s')"
      by (auto simp: Let_def)
    from "1.IH" [OF this refl] obtain r' where
      "fails_with srv url params value_key ver (continuation r) s1 r' s'" "e = error_text r'"
      by blast
    then have "fails_with srv url params value_key ver (continuation r) s1 r' s' \<and> e = error_text r'"
      by simp
    moreover from False have "status_code r < 400" by simp
    ultimately show ?thesis
      using r d t by (blast intro: fails_with.later_error)
  qed
qed

lemma pages_from_paginate:
  assumes "pages_from srv url params value_key ver token s chunks s'"
  shows "paginate srv url params value_key ver token out s = Some (Return (out @ concat chunks), s')"
  using assms
proof (induction arbitrary: out)
  case (last_page token s r s1 d)
  then show ?case by (subst paginate.simps) simp
next
  case (next_page token s r s1 d chunks s2)
  then show ?case by (subst paginate.simps) simp
qed

lemma fails_with_paginate:
  assumes "fails_with srv url params value_key ver token s r s'"
  shows "paginate srv url params value_key ver token out s = Some (Break (error_text r), s')"
  using assms
proof (induction arbitrary: out)
  case (error_page token s r s1)
  then show ?case by (subst paginate.simps) (simp add: error_text_def)
next
  case (later_error token s r0 s1 d r s2)
  then show ?case by (subst paginate.simps) simp
qed

lemma version_loop_Inr:
  assumes "version_loop srv url params value_key versions e0 s = Some (Inr out, s')"
  shows "\<exists>pre ver post rs s1 chunks.
      versions = pre @ ver # post
    \<and> all_fail srv url params value_key pre s rs s1
    \<and> pages_from srv url params value_key ver None s1 chunks s'
    \<and> out = concat chunks"
  using assms
proof (induction versions arbitrary: e0 s)
  case Nil
  then show ?case by simp
next
  case (Cons ver vers)
  from Cons.prems obtain x s1 where p: "paginate srv url params value_key ver None [] s = Some (x, s1)"
    by (cases "paginate srv url params value_key ver None [] s") auto
  show ?case
  proof (cases x)
    case (Break e)
    from paginate_Break_aux [OF p [unfolded Break] refl]
    obtain r where f: "fails_with srv url params value_key ver None s r s1"
      by (elim exE conjE)
    from Cons.prems p Break have "version_loop srv url params value_key vers e s1 = Some (Inr out, s')"
      by simp
    from Cons.IH [OF this] obtain pre v post rs s2 chunks where
      "vers = pre @ v # post" "all_fail srv url params value_key pre s1 rs s2"
      "pages_from srv url params value_key v None s2 chunks s'" "out = concat chunks"
      by (elim exE conjE)
    with f have "ver # vers = (ver # pre) @ v # post
        \<and> all_fail srv url params value_key (ver # pre) s (r # rs) s2
        \<and> pages_from srv url params value_key v None s2 chunks s' \<and> out = concat chunks"
      by (simp add: all_fail.more)
    then show ?thesis by (intro exI)
  next
    case (Return res)
    with Cons.prems p have eq: "res = out" "s1 = s'" by simp_all
    from paginate_Return_aux [OF p [unfolded Return] refl]
    obtain chunks where
      "pages_from srv url params value_key ver None s chunks s1" "res = [] @ concat chunks"
      by (elim exE conjE)
    with eq have "ver # vers = [] @ ver # vers
        \<and> all_fail srv url params value_key [] s [] s
        \<and> pages_from srv url params value_key ver None s chunks s' \<and> out = concat chunks"
      by (simp add: all_fail.none)
    then show ?thesis by (intro exI)
  next
    case (Raise e)
    with Cons.prems p show ?thesis by simp
  qed
qed

lemma all_fail_version_loop_append:
  assumes "all_fail srv url params value_key pre s rs s1"
  shows "version_loop srv url params value_key (pre @ vers) e0 s =
     version_loop srv url params value_key vers (if rs = [] then e0 else error_text (last rs)) s1"
  using assms
proof (induction arbitrary: e0)
  case (none s)
  show ?case by simp
next
  case (more ver s r s1 pre rs s2)
  from more.hyps(1) have "paginate srv url params value_key ver None [] s = Some (Break (error_text r), s1)"
    by (rule fails_with_paginate)
  then show ?case using more.IH [of "error_text r"] by simp
qed




text \<open>
  Claim C1. A paginated fetch returns a collection exactly when the candidate versions
  split into a prefix of versions that each end in an HTTP error, and one version \<open>ver\<close>
  whose requests, linked by continuation tokens, are all pages: the collection is then the
  concatenation of the pages fetched under \<open>ver\<close>, starting from an empty accumulator,
  and holds nothing fetched under a version of the prefix.
\<close>

theorem fallback_single_version:
  "get_json_paginated_fallback srv url versions params value_key s = Some (Inr out, s')
   \<longleftrightarrow> (\<exists>pre ver post rs s1 chunks.
          versions = pre @ ver # post
        \<and> all_fail srv url params value_key pre s rs s1
        \<and> pages_from srv url params value_key ver None s1 chunks s'
        \<and> out = concat chunks)"
proof
  assume "get_json_paginated_fallback srv url versions params value_key s = Some (Inr out, s')"
  then show "\<exists>pre ver post rs s1 chunks.
          versions = pre @ ver # post
        \<and> all_fail srv url params value_key pre s rs s1
        \<and> pages_from srv url params value_key ver None s1 chunks s'
        \<and> out = concat chunks"
    unfolding get_json_paginated_fallback_def by (rule version_loop_Inr)
next
  assume "\<exists>pre ver post rs s1 chunks.
          versions = pre @ ver # post
        \<and> all_fail srv url params value_key pre s rs s1
        \<and> pages_from srv url params value_key ver None s1 chunks s'
        \<and> out = concat chunks"
  then obtain pre ver post rs s1 chunks where
    v: "versions = pre @ ver # post" and
    f: "all_fail srv url params value_key pre s rs s1" and
    p: "pages_from srv url params value_key ver None s1 chunks s'" and
    out: "out = concat chunks"
    by (elim exE conjE)
  from p have "paginate srv url params value_key ver None [] s1 = Some (Return ([] @ concat chunks), s')"
    by (rule pages_from_paginate)
  then show "get_json_paginated_fallback srv url versions params value_key s = Some (Inr out, s')"
    unfolding get_json_paginated_fallback_def v
    by (simp add: all_fail_version_loop_append [OF f] out)
qed


lemmas demo_simps =
  demo_server_def demo_page_def demo_error_def page_request_def page_query_def

lemma demo_A_fails:
  "fails_with demo_server ''u'' [(''planId'', ''7'')] ''value'' ''A'' None 0 (demo_error 500 ''boom'') 2"
proof -
  let ?r0 = "demo_page [1, 2] (Some ''a2'')"
  have 1: "demo_server (page_request ''u'' [(''planId'', ''7'')] ''A'' None) 0 = (?r0, 1)"
    by (simp add: demo_simps)
  have 2: "demo_server (page_request ''u'' [(''planId'', ''7'')] ''A'' (continuation ?r0)) 1
      = (demo_error 500 ''boom'', 2)"
    by (simp add: demo_simps)
  have 3: "fails_with demo_server ''u'' [(''planId'', ''7'')] ''value'' ''A'' (continuation ?r0) 1
      (demo_error 500 ''boom'') 2"
    by (rule fails_with.error_page [where srv = demo_server, OF 2]) (simp add: demo_error_def)
  show ?thesis
    by (rule fails_with.later_error [where srv = demo_server, OF 1 _ _ _ 3]) (simp_all add: demo_page_def truthy_def)
qed

lemma demo_B_pages:
  "pages_from demo_server ''u'' [(''planId'', ''7'')] ''value'' ''B'' None 2 [[10, 11], [12]] 4"
proof -
  let ?r0 = "demo_page [10, 11] (Some ''b2'')"
  have 1: "demo_server (page_request ''u'' [(''planId'', ''7'')] ''B'' None) 2 = (?r0, 3)"
    by (simp add: demo_simps)
  have 2: "demo_server (page_request ''u'' [(''planId'', ''7'')] ''B'' (continuation ?r0)) 3
      = (demo_page [12] None, 4)"
    by (simp add: demo_simps)
  have c1: "page_chunk ''value'' [(''value'', Items [10, 11 :: nat])] = [10, 11]"
    and c2: "page_chunk ''value'' [(''value'', Items [12 :: nat])] = [12]"
    by (simp_all add: page_chunk_def dict_get_def)
  have 3: "pages_from demo_server ''u'' [(''planId'', ''7'')] ''value'' ''B'' (continuation ?r0) 3
      [page_chunk ''value'' [(''value'', Items [12])]] 4"
    by (rule pages_from.last_page [where srv = demo_server, OF 2]) (simp_all add: demo_page_def truthy_def)
  have "pages_from demo_server ''u'' [(''planId'', ''7'')] ''value'' ''B'' None 2
      (page_chunk ''value'' [(''value'', Items [10, 11])] # [page_chunk ''value'' [(''value'', Items [12])]]) 4"
    by (rule pages_from.next_page [where srv = demo_server, OF 1 _ _ _ 3]) (simp_all add: demo_page_def truthy_def)
  then show ?thesis by (simp only: c1 c2)
qed


theorem fallback_single_version_witness:
  "all_fail demo_server ''u'' [(''planId'', ''7'')] ''value'' [''A''] 0 [demo_error 500 ''boom''] 2
   \<and> pages_from demo_server ''u'' [(''planId'', ''7'')] ''value'' ''B'' None 2 [[10, 11], [12]] 4
   \<and> get_json_paginated_fallback demo_server ''u'' [''A'', ''B''] [(''planId'', ''7'')] ''value'' 0
       = Some (Inr [10, 11, 12], 4)"
proof -
  have a: "all_fail demo_server ''u'' [(''planId'', ''7'')] ''value'' [''A''] 0 [demo_error 500 ''boom''] 2"
    by (rule all_fail.more [OF demo_A_fails all_fail.none])
  have "\<exists>pre ver post rs s1 chunks.
          [''A'', ''B''] = pre @ ver # post
        \<and> all_fail demo_server ''u'' [(''planId'', ''7'')] ''value'' pre 0 rs s1
        \<and> pages_from demo_server ''u'' [(''planId'', ''7'')] ''value'' ver None s1 chunks 4
        \<and> [10, 11, 12] = concat chunks"
    using a demo_B_pages
    by (intro exI [of _ "[''A'']"] exI [of _ "''B''"] exI [of _ "[]"] exI [of _ "[demo_error 500 ''boom'']"]
        exI [of _ "2"] exI [of _ "[[10, 11], [12]]"]) simp
  then have "get_json_paginated_fallback demo_server ''u'' [''A'', ''B''] [(''planId'', ''7'')] ''value'' 0
       = Some (Inr [10, 11, 12], 4)"
    by (simp only: fallback_single_version)
  with a demo_B_pages show ?thesis by simp
qed

section \<open>Properties of the hierarchy resolver\<close>

lemma cache_ok_empty: "cache_ok by_id Map.empty"
  by (simp add: cache_ok_def)

lemma walk_up_chain:
  "is_chain by_id sid ch \<Longrightarrow> walk_up by_id (by_id sid) parts = Some (parts @ map suite_name ch)"
proof (induction ch arbitrary: sid parts)
  case Nil
  then show ?case by simp
next
  case (Cons c rest)
  from Cons.prems have c: "by_id sid = Some c" by simp
  show ?case
  proof (cases "parentId c")
    case None
    with Cons.prems have "rest = []" by simp
    with c None show ?thesis
      by (subst walk_up.simps) (simp add: parent_of_def walk_up.simps)
  next
    case (Some pid)
    with Cons.prems have "is_chain by_id pid rest" by simp
    from Cons.IH [OF this, of "parts @ [suite_name c]"] c Some show ?thesis
      by (subst walk_up.simps) (simp add: parent_of_def)
  qed
qed

lemma climb_chain:
  "is_chain by_id sid (c # rest) \<Longrightarrow> climb by_id c = Some (Inr (suite_id (last (c # rest))))"
proof (induction rest arbitrary: sid c)
  case Nil
  then show ?case
    by (subst climb.simps) (simp split: option.splits)
next
  case (Cons n rest)
  from Cons.prems obtain pid where pid: "parentId c = Some pid" and ch: "is_chain by_id pid (n # rest)"
    by (cases "parentId c") auto
  from ch have n: "by_id pid = Some n" by simp
  from Cons.IH [OF ch] pid n show ?case
    by (subst climb.simps) simp
qed

lemma path_for_cache_ok:
  assumes "cache_ok by_id cache" and "path_for by_id cache sid = Some (Inr p, cache1)"
  shows "cache_ok by_id cache1 \<and> cache1 sid = Some p \<and> (\<forall>i. i \<in> dom cache \<longrightarrow> cache1 i = cache i)"
proof (cases "cache sid")
  case (Some q)
  with assms show ?thesis by (simp add: path_for_def)
next
  case None
  with assms(2) obtain c parts where
    c: "by_id sid = Some c" and w: "walk_up by_id (Some c) [] = Some parts"
    and p: "p = join ''/'' (rev parts)" and c1: "cache1 = cache(sid \<mapsto> p)"
    by (auto simp: path_for_def Let_def split: option.splits)
  from assms(1) c w p have "cache_ok by_id (cache(sid \<mapsto> p))"
    unfolding cache_ok_def by auto
  with c1 None show ?thesis by auto
qed

lemma path_for_Inl:
  assumes "path_for by_id cache sid = Some (Inl e, cache1)"
  shows "by_id sid = None"
  using assms by (auto simp: path_for_def Let_def split: option.splits)

lemma path_for_chain:
  assumes "is_chain by_id sid ch"
  shows "\<exists>p cache1. path_for by_id cache sid = Some (Inr p, cache1)"
proof -
  from assms obtain c where c: "by_id sid = Some c" by (cases ch) auto
  from walk_up_chain [OF assms, of "[]"] c
  have "walk_up by_id (Some c) [] = Some (map suite_name ch)" by simp
  with c show ?thesis
    by (cases "cache sid") (simp_all add: path_for_def Let_def)
qed

lemma path_loop_chains:
  assumes "cache_ok by_id cache"
    and "\<forall>s \<in> set ss. \<exists>ch. is_chain by_id (suite_id s) ch"
  shows "\<exists>cache1. path_loop by_id ss cache = Some (Inr cache1) \<and> cache_ok by_id cache1
      \<and> (\<forall>s \<in> set ss. suite_id s \<in> dom cache1) \<and> (\<forall>i. i \<in> dom cache \<longrightarrow> cache1 i = cache i)"
  using assms
proof (induction ss arbitrary: cache)
  case Nil
  then show ?case by simp
next
  case (Cons s ss)
  from Cons.prems(2) obtain ch where "is_chain by_id (suite_id s) ch" by auto
  from path_for_chain [OF this] obtain p cache1 where
    pf: "path_for by_id cache (suite_id s) = Some (Inr p, cache1)" by blast
  from path_for_cache_ok [OF Cons.prems(1) pf] have
    ok1: "cache_ok by_id cache1" and hit: "cache1 (suite_id s) = Some p"
    and keep: "\<forall>i. i \<in> dom cache \<longrightarrow> cache1 i = cache i"
    by simp_all
  from Cons.prems(2) have "\<forall>s \<in> set ss. \<exists>ch. is_chain by_id (suite_id s) ch" by simp
  from Cons.IH [OF ok1 this] obtain cache2 where
    l: "path_loop by_id ss cache1 = Some (Inr cache2)" and ok2: "cache_ok by_id cache2"
    and all: "\<forall>s \<in> set ss. suite_id s \<in> dom cache2"
    and keep2: "\<forall>i. i \<in> dom cache1 \<longrightarrow> cache2 i = cache1 i"
    by blast
  from hit keep2 have "cache2 (suite_id s) = Some p" by (simp add: domI)
  moreover from keep keep2 have "\<forall>i. i \<in> dom cache \<longrightarrow> cache2 i = cache i"
    by (metis domD domI)
  ultimately show ?case using pf l ok2 all by auto
qed

lemma index_by_id_dom_aux:
  "dom (foldl (\<lambda>m s. m(suite_id s \<mapsto> s)) m0 suites) = dom m0 \<union> suite_id ` set suites"
  by (induction suites arbitrary: m0) auto

lemma index_by_id_dom: "dom (index_by_id suites) = suite_id ` set suites"
  by (simp add: index_by_id_def index_by_id_dom_aux)

lemma chain_paths:
  assumes "\<forall>s \<in> set suites. \<exists>ch. is_chain (index_by_id suites) (suite_id s) ch"
  shows "\<exists>cache. build_suite_path_lookup suites = Some (Inr cache)
      \<and> (\<forall>s \<in> set suites. \<forall>ch. is_chain (index_by_id suites) (suite_id s) ch \<longrightarrow>
            cache (suite_id s) = Some (join ''/'' (rev (map suite_name ch)))
          \<and> top_ancestor (index_by_id suites) (suite_id s) = Some (Inr (suite_id (last ch))))"
proof -
  let ?by_id = "index_by_id suites"
  from path_loop_chains [OF cache_ok_empty assms] obtain cache where
    l: "path_loop ?by_id suites Map.empty = Some (Inr cache)" and ok: "cache_ok ?by_id cache"
    and all: "\<forall>s \<in> set suites. suite_id s \<in> dom cache"
    by blast
  have "cache (suite_id s) = Some (join ''/'' (rev (map suite_name ch)))
      \<and> top_ancestor ?by_id (suite_id s) = Some (Inr (suite_id (last ch)))"
    if s: "s \<in> set suites" and ch: "is_chain ?by_id (suite_id s) ch" for s ch
  proof
    from all s obtain p where p: "cache (suite_id s) = Some p" by auto
    with ok obtain c parts where
      c: "?by_id (suite_id s) = Some c" and w: "walk_up ?by_id (Some c) [] = Some parts"
      and pj: "p = join ''/'' (rev parts)"
      unfolding cache_ok_def by blast
    from walk_up_chain [OF ch, of "[]"] c w have "parts = map suite_name ch" by simp
    with p pj show "cache (suite_id s) = Some (join ''/'' (rev (map suite_name ch)))" by simp
    from ch obtain c rest where cr: "ch = c # rest" and c: "?by_id (suite_id s) = Some c"
      by (cases ch) auto
    from climb_chain [of ?by_id "suite_id s" c rest] ch cr c
    show "top_ancestor ?by_id (suite_id s) = Some (Inr (suite_id (last ch)))"
      by (simp add: top_ancestor_def)
  qed
  with l show ?thesis
    by (auto simp: build_suite_path_lookup_def)
qed

lemma chain3_index:
  "index_by_id chain3 ''1'' = Some \<lparr>suite_id = ''1'', suite_name = ''root'', parentId = None\<rparr>"
  "index_by_id chain3 ''2'' = Some \<lparr>suite_id = ''2'', suite_name = ''mid'', parentId = Some ''1''\<rparr>"
  "index_by_id chain3 ''3'' = Some \<lparr>suite_id = ''3'', suite_name = ''leaf'', parentId = Some ''2''\<rparr>"
  by (simp_all add: index_by_id_def chain3_def)

lemma ancestor_after_None: "ancestor_after by_id k None = None"
  unfolding ancestor_after_def by (induction k) simp_all

lemma ancestor_after_add:
  "ancestor_after by_id (a + b) cur = ancestor_after by_id a (ancestor_after by_id b cur)"
  unfolding ancestor_after_def by (simp add: funpow_add)

lemma ancestor_after_Suc:
  "ancestor_after by_id (Suc k) (Some c) = ancestor_after by_id k (parent_of by_id c)"
  unfolding ancestor_after_def by (simp add: funpow_Suc_right del: funpow.simps)

lemma ancestor_after_loop:
  assumes "ancestor_after by_id n (Some d) = Some d"
  shows "ancestor_after by_id (n * j) (Some d) = Some d"
proof (induction j)
  case 0
  show ?case by (simp add: ancestor_after_def)
next
  case (Suc j)
  have "ancestor_after by_id (n * Suc j) (Some d)
      = ancestor_after by_id n (ancestor_after by_id (n * j) (Some d))"
    by (simp add: ancestor_after_add)
  with Suc assms show ?case by simp
qed

lemma revisit_never_ends:
  assumes "ancestor_after by_id m cur = Some d" and "0 < n"
    and "ancestor_after by_id n (Some d) = Some d"
  shows "ancestor_after by_id k cur \<noteq> None"
proof
  assume e: "ancestor_after by_id k cur = None"
  have "ancestor_after by_id (n * k + m) cur = Some d"
    using assms(1) ancestor_after_loop [OF assms(3), of k] by (simp add: ancestor_after_add)
  moreover from \<open>0 < n\<close> have "n * k + m = (n * k + m - k) + k" by (cases n) simp_all
  then have "ancestor_after by_id (n * k + m) cur
      = ancestor_after by_id (n * k + m - k) (ancestor_after by_id k cur)"
    using ancestor_after_add [of by_id "n * k + m - k" k cur] by simp
  ultimately show False using e by (simp add: ancestor_after_None)
qed

lemma walk_up_ends:
  "walk_up by_id cur parts = Some r \<Longrightarrow> \<exists>k. ancestor_after by_id k cur = None"
proof (induction rule: walk_up.raw_induct [rotated 1, consumes 1])
  case (1 walk by_id cur parts r)
  show ?case
  proof (cases cur)
    case None
    then have "ancestor_after by_id 0 cur = None" by (simp add: ancestor_after_def)
    then show ?thesis ..
  next
    case (Some c)
    with "1.hyps" have "walk by_id (parent_of by_id c) (parts @ [suite_name c]) = Some r" by simp
    from "1.IH" [OF this] obtain k where "ancestor_after by_id k (parent_of by_id c) = None" ..
    with Some have "ancestor_after by_id (Suc k) cur = None" by (simp add: ancestor_after_Suc)
    then show ?thesis ..
  qed
qed

lemma climb_ends:
  "climb by_id c = Some r \<Longrightarrow> \<exists>k. ancestor_after by_id k (Some c) = None"
proof (induction rule: climb.raw_induct [rotated 1, consumes 1])
  case (1 climb' by_id c r)
  show ?case
  proof (cases "parent_of by_id c")
    case None
    then have "ancestor_after by_id (Suc 0) (Some c) = None"
      by (simp add: ancestor_after_Suc ancestor_after_def)
    then show ?thesis ..
  next
    case (Some nxt)
    then obtain pid where "parentId c = Some pid" "by_id pid = Some nxt"
      by (auto simp: parent_of_def split: option.splits)
    with "1.hyps" have "climb' by_id nxt = Some r" by simp
    from "1.IH" [OF this] obtain k where "ancestor_after by_id k (Some nxt) = None" ..
    with Some have "ancestor_after by_id (Suc k) (Some c) = None" by (simp add: ancestor_after_Suc)
    then show ?thesis ..
  qed
qed

lemma path_loop_diverges:
  assumes "cache_ok by_id cache"
    and "\<forall>s \<in> set ss. suite_id s \<in> dom by_id"
    and "s0 \<in> set ss"
    and "\<And>k. ancestor_after by_id k (by_id (suite_id s0)) \<noteq> None"
  shows "path_loop by_id ss cache = None"
  using assms(1-3)
proof (induction ss arbitrary: cache)
  case Nil
  then show ?case by simp
next
  case (Cons s ss)
  from Cons.prems(2) obtain c where c: "by_id (suite_id s) = Some c" by auto
  show ?case
  proof (cases "path_for by_id cache (suite_id s)")
    case None
    then show ?thesis by simp
  next
    case (Some res)
    obtain x cache1 where res: "res = (x, cache1)" by (cases res)
    show ?thesis
    proof (cases x)
      case (Inl e)
      with Some res c path_for_Inl [of by_id cache "suite_id s" e cache1] show ?thesis by simp
    next
      case (Inr p)
      with Some res have pf: "path_for by_id cache (suite_id s) = Some (Inr p, cache1)" by simp
      from path_for_cache_ok [OF Cons.prems(1) pf] have ok1: "cache_ok by_id cache1"
        and hit: "cache1 (suite_id s) = Some p" by simp_all
      have "suite_id s0 \<noteq> suite_id s"
      proof
        assume "suite_id s0 = suite_id s"
        with ok1 hit obtain c' parts where
          "by_id (suite_id s0) = Some c'" "walk_up by_id (Some c') [] = Some parts"
          unfolding cache_ok_def by metis
        moreover from this(2) obtain k where "ancestor_after by_id k (Some c') = None"
          using walk_up_ends by blast
        ultimately show False using assms(4) [of k] by simp
      qed
      with Cons.prems(3) have "s0 \<in> set ss" by auto
      moreover from Cons.prems(2) have "\<forall>s \<in> set ss. suite_id s \<in> dom by_id" by simp
      ultimately have "path_loop by_id ss cache1 = None"
        using Cons.IH [OF ok1] by simp
      with pf show ?thesis by simp
    qed
  qed
qed

lemma cyclic_walks_diverge:
  assumes "s \<in> set suites"
    and "ancestor_after (index_by_id suites) m (index_by_id suites (suite_id s)) = Some d"
    and "0 < n"
    and "ancestor_after (index_by_id suites) n (Some d) = Some d"
  shows "top_ancestor (index_by_id suites) (suite_id s) = None"
    and "build_suite_path_lookup suites = None"
proof -
  let ?by_id = "index_by_id suites"
  have never: "ancestor_after ?by_id k (?by_id (suite_id s)) \<noteq> None" for k
    using assms(2-4) by (rule revisit_never_ends)
  from assms(1) obtain c where c: "?by_id (suite_id s) = Some c"
    using index_by_id_dom [of suites] by blast
  have "climb ?by_id c = None"
  proof (cases "climb ?by_id c")
    case (Some r)
    from climb_ends [OF this] obtain k where "ancestor_after ?by_id k (Some c) = None" ..
    with never [of k] c show ?thesis by simp
  qed simp
  with c show "top_ancestor ?by_id (suite_id s) = None"
    by (simp add: top_ancestor_def)
  have "\<forall>s \<in> set suites. suite_id s \<in> dom ?by_id"
    by (simp add: index_by_id_dom)
  from path_loop_diverges [OF cache_ok_empty this assms(1) never]
  show "build_suite_path_lookup suites = None"
    by (simp add: build_suite_path_lookup_def)
qed

lemma index_by_id_aux:
  "foldl (\<lambda>m s. m(suite_id s \<mapsto> s)) m0 suites i = Some c \<Longrightarrow> c \<in> set suites \<or> m0 i = Some c"
proof (induction suites arbitrary: m0)
  case Nil
  then show ?case by simp
next
  case (Cons a suites)
  from Cons.prems have "foldl (\<lambda>m s. m(suite_id s \<mapsto> s)) (m0(suite_id a \<mapsto> a)) suites i = Some c"
    by (simp only: foldl_Cons)
  from Cons.IH [OF this] show ?case by (auto split: if_splits)
qed

lemma index_by_id_in: "index_by_id suites i = Some c \<Longrightarrow> c \<in> set suites"
  using index_by_id_aux [of Map.empty suites i c] by (simp add: index_by_id_def)

lemma parent_of_in:
  "parent_of (index_by_id suites) c = Some d \<Longrightarrow> d \<in> set suites"
  by (auto simp: parent_of_def split: option.splits dest: index_by_id_in)

lemma ancestor_after_in:
  "ancestor_after (index_by_id suites) k (Some c) = Some d \<Longrightarrow> c \<in> set suites \<Longrightarrow> d \<in> set suites"
proof (induction k arbitrary: c)
  case 0
  then show ?case by (simp add: ancestor_after_def)
next
  case (Suc k)
  from Suc.prems(1) have a: "ancestor_after (index_by_id suites) k (parent_of (index_by_id suites) c) = Some d"
    by (simp add: ancestor_after_Suc)
  then obtain c' where c': "parent_of (index_by_id suites) c = Some c'"
    by (cases "parent_of (index_by_id suites) c") (simp_all add: ancestor_after_None)
  with a Suc.IH [of c'] parent_of_in [OF c'] show ?case by simp
qed

lemma acyclic_walk_ends:
  assumes "acyclic_snapshot suites" and "c \<in> set suites"
  shows "\<exists>k. ancestor_after (index_by_id suites) k (Some c) = None"
proof (rule ccontr)
  let ?by_id = "index_by_id suites"
  let ?n = "length suites"
  assume "\<not> (\<exists>k. ancestor_after ?by_id k (Some c) = None)"
  then have some: "\<exists>d. ancestor_after ?by_id k (Some c) = Some d" for k by auto
  define g where "g k = the (ancestor_after ?by_id k (Some c))" for k
  have g: "ancestor_after ?by_id k (Some c) = Some (g k)" for k
    using some [of k] by (auto simp: g_def)
  have "g ` {0..?n} \<subseteq> set suites"
    using g ancestor_after_in [OF _ assms(2)] by blast
  then have "card (g ` {0..?n}) \<le> card (set suites)"
    by (simp add: card_mono)
  also have "\<dots> \<le> ?n" by (rule card_length)
  also have "\<dots> < card {0..?n}" by simp
  finally have "\<not> inj_on g {0..?n}" by (rule pigeonhole)
  then obtain i j where ij: "i < j" "g i = g j"
    unfolding inj_on_def by (metis linorder_neqE_nat)
  have "ancestor_after ?by_id ((j - i) + i) (Some c)
      = ancestor_after ?by_id (j - i) (ancestor_after ?by_id i (Some c))"
    by (rule ancestor_after_add)
  with ij g [of i] g [of j] have "ancestor_after ?by_id (j - i) (Some (g i)) = Some (g i)"
    by simp
  moreover have "g i \<in> set suites"
    using g [of i] ancestor_after_in [OF _ assms(2)] by blast
  ultimately show False
    using assms(1) ij(1) unfolding acyclic_snapshot_def by (metis zero_less_diff)
qed

lemma ended_walk_chain:
  assumes "parents_resolve suites"
  shows "ancestor_after (index_by_id suites) k (Some c) = None \<Longrightarrow> index_by_id suites sid = Some c
     \<Longrightarrow> \<exists>ch. is_chain (index_by_id suites) sid ch"
proof (induction k arbitrary: c sid)
  case 0
  then show ?case by (simp add: ancestor_after_def)
next
  case (Suc k)
  let ?by_id = "index_by_id suites"
  show ?case
  proof (cases "parentId c")
    case None
    with Suc.prems(2) have "is_chain ?by_id sid [c]" by simp
    then show ?thesis ..
  next
    case (Some pid)
    from Suc.prems(2) have "c \<in> set suites" by (rule index_by_id_in)
    with assms Some have "pid \<in> suite_id ` set suites"
      by (auto simp: parents_resolve_def list_all_iff)
    then obtain c' where c': "?by_id pid = Some c'"
      using index_by_id_dom [of suites] by blast
    with Some have "parent_of ?by_id c = Some c'" by (simp add: parent_of_def)
    with Suc.prems(1) have "ancestor_after ?by_id k (Some c') = None"
      by (simp add: ancestor_after_Suc)
    from Suc.IH [OF this c'] obtain ch where "is_chain ?by_id pid ch" ..
    with Suc.prems(2) Some have "is_chain ?by_id sid (c # ch)" by simp
    then show ?thesis ..
  qed
qed

lemma forest_chains:
  assumes "parents_resolve suites" and "acyclic_snapshot suites" and "s \<in> set suites"
  shows "\<exists>ch. is_chain (index_by_id suites) (suite_id s) ch"
proof -
  from assms(3) obtain c where c: "index_by_id suites (suite_id s) = Some c"
    using index_by_id_dom [of suites] by blast
  then have "c \<in> set suites" by (rule index_by_id_in)
  from acyclic_walk_ends [OF assms(2) this] obtain k where
    "ancestor_after (index_by_id suites) k (Some c) = None" ..
  from ended_walk_chain [OF assms(1) this c] show ?thesis .
qed

lemma is_chain_unique:
  "is_chain by_id sid ch \<Longrightarrow> is_chain by_id sid ch' \<Longrightarrow> ch = ch'"
proof (induction ch arbitrary: sid ch')
  case Nil
  then show ?case by simp
next
  case (Cons c rest)
  from Cons.prems obtain c' rest' where ch': "ch' = c' # rest'" by (cases ch') auto
  with Cons.prems have c: "c' = c" by simp
  show ?case
  proof (cases "parentId c")
    case None
    with Cons.prems ch' c show ?thesis by simp
  next
    case (Some pid)
    with Cons.prems ch' c have "is_chain by_id pid rest" "is_chain by_id pid rest'" by simp_all
    then have "rest = rest'" by (rule Cons.IH)
    with ch' c show ?thesis by simp
  qed
qed

lemma chain_acyclic:
  assumes "is_chain by_id sid (c # ch)" and "0 < k"
  shows "ancestor_after by_id k (Some c) \<noteq> Some c"
proof
  assume loop: "ancestor_after by_id k (Some c) = Some c"
  from assms(1) have c: "by_id sid = Some c" by simp
  from walk_up_chain [OF assms(1), of "[]"] c
  have "walk_up by_id (Some c) [] = Some (map suite_name (c # ch))" by simp
  from walk_up_ends [OF this] obtain j where "ancestor_after by_id j (Some c) = None" ..
  moreover have "ancestor_after by_id 0 (Some c) = Some c" by (simp add: ancestor_after_def)
  from revisit_never_ends [OF this assms(2) loop] have "ancestor_after by_id j (Some c) \<noteq> None" .
  ultimately show False by simp
qed

text \<open>
  Claim C8, as the code has it. In an acyclic snapshot in which every parent reference
  names a suite of the list, \<open>build_suite_path_lookup\<close> returns a lookup and, for every
  suite, following the parent references from it visits a chain of records that ends at
  a record with no parent: the lookup maps the suite to the slash-join of the chain's
  names, root first, and \<open>top_ancestor\<close> returns the id of the record that ends the
  chain. The hypothesis on the parent references is needed: \<open>path_for\<close> stops at a
  parent id that names no suite, and \<open>top_ancestor\<close> raises \<open>KeyError\<close> there.
\<close>

theorem hierarchy_paths:
  assumes "parents_resolve suites" and "acyclic_snapshot suites"
  shows "\<exists>cache. build_suite_path_lookup suites = Some (Inr cache)
      \<and> (\<forall>s \<in> set suites. \<exists>ch. is_chain (index_by_id suites) (suite_id s) ch
          \<and> cache (suite_id s) = Some (join ''/'' (rev (map suite_name ch)))
          \<and> top_ancestor (index_by_id suites) (suite_id s) = Some (Inr (suite_id (last ch))))"
proof -
  have chains: "\<forall>s \<in> set suites. \<exists>ch. is_chain (index_by_id suites) (suite_id s) ch"
    using forest_chains [OF assms] by blast
  from chain_paths [OF chains] obtain cache where
    b: "build_suite_path_lookup suites = Some (Inr cache)"
    and a: "\<forall>s \<in> set suites. \<forall>ch. is_chain (index_by_id suites) (suite_id s) ch \<longrightarrow>
            cache (suite_id s) = Some (join ''/'' (rev (map suite_name ch)))
          \<and> top_ancestor (index_by_id suites) (suite_id s) = Some (Inr (suite_id (last ch)))"
    by blast
  from chains a have "\<forall>s \<in> set suites. \<exists>ch. is_chain (index_by_id suites) (suite_id s) ch
          \<and> cache (suite_id s) = Some (join ''/'' (rev (map suite_name ch)))
          \<and> top_ancestor (index_by_id suites) (suite_id s) = Some (Inr (suite_id (last ch)))"
    by blast
  with b show ?thesis by blast
qed

lemma chain3_chains:
  "is_chain (index_by_id chain3) ''1''
     [\<lparr>suite_id = ''1'', suite_name = ''root'', parentId = None\<rparr>]"
  "is_chain (index_by_id chain3) ''2''
     [\<lparr>suite_id = ''2'', suite_name = ''mid'', parentId = Some ''1''\<rparr>,
      \<lparr>suite_id = ''1'', suite_name = ''root'', parentId = None\<rparr>]"
  "is_chain (index_by_id chain3) ''3''
     [\<lparr>suite_id = ''3'', suite_name = ''leaf'', parentId = Some ''2''\<rparr>,
      \<lparr>suite_id = ''2'', suite_name = ''mid'', parentId = Some ''1''\<rparr>,
      \<lparr>suite_id = ''1'', suite_name = ''root'', parentId = None\<rparr>]"
  by (simp_all add: chain3_index)

lemma chain3_forest: "parents_resolve chain3" "acyclic_snapshot chain3"
proof -
  show "parents_resolve chain3"
    by (simp add: parents_resolve_def chain3_def)
  show "acyclic_snapshot chain3"
    unfolding acyclic_snapshot_def
  proof (intro allI impI)
    fix d and k :: nat
    assume dk: "d \<in> set chain3 \<and> 0 < k"
    then consider "d = \<lparr>suite_id = ''1'', suite_name = ''root'', parentId = None\<rparr>"
      | "d = \<lparr>suite_id = ''2'', suite_name = ''mid'', parentId = Some ''1''\<rparr>"
      | "d = \<lparr>suite_id = ''3'', suite_name = ''leaf'', parentId = Some ''2''\<rparr>"
      by (auto simp: chain3_def)
    then show "ancestor_after (index_by_id chain3) k (Some d) \<noteq> Some d"
    proof cases
      case 1 with dk chain_acyclic [OF chain3_chains(1)] show ?thesis by simp
    next
      case 2 with dk chain_acyclic [OF chain3_chains(2)] show ?thesis by simp
    next
      case 3 with dk chain_acyclic [OF chain3_chains(3)] show ?thesis by simp
    qed
  qed
qed

theorem hierarchy_paths_witness:
  "parents_resolve chain3 \<and> acyclic_snapshot chain3
   \<and> is_chain (index_by_id chain3) ''3''
       [\<lparr>suite_id = ''3'', suite_name = ''leaf'', parentId = Some ''2''\<rparr>,
        \<lparr>suite_id = ''2'', suite_name = ''mid'', parentId = Some ''1''\<rparr>,
        \<lparr>suite_id = ''1'', suite_name = ''root'', parentId = None\<rparr>]
   \<and> (\<exists>cache. build_suite_path_lookup chain3 = Some (Inr cache)
          \<and> cache ''3'' = Some ''root/mid/leaf'')
   \<and> top_ancestor (index_by_id chain3) ''3'' = Some (Inr ''1'')"
proof -
  let ?root = "\<lparr>suite_id = ''1'', suite_name = ''root'', parentId = None\<rparr>"
  let ?mid = "\<lparr>suite_id = ''2'', suite_name = ''mid'', parentId = Some ''1''\<rparr>"
  let ?leaf = "\<lparr>suite_id = ''3'', suite_name = ''leaf'', parentId = Some ''2''\<rparr>"
  from hierarchy_paths [OF chain3_forest] obtain cache where
    b: "build_suite_path_lookup chain3 = Some (Inr cache)"
    and a: "\<forall>s \<in> set chain3. \<exists>ch. is_chain (index_by_id chain3) (suite_id s) ch
          \<and> cache (suite_id s) = Some (join ''/'' (rev (map suite_name ch)))
          \<and> top_ancestor (index_by_id chain3) (suite_id s) = Some (Inr (suite_id (last ch)))"
    by blast
  have leaf: "?leaf \<in> set chain3" by (simp add: chain3_def)
  from a [rule_format, OF leaf] obtain ch where
    ch: "is_chain (index_by_id chain3) ''3'' ch"
    and p: "cache ''3'' = Some (join ''/'' (rev (map suite_name ch)))"
    and t: "top_ancestor (index_by_id chain3) ''3'' = Some (Inr (suite_id (last ch)))"
    by auto
  from is_chain_unique [OF ch chain3_chains(3)] have "ch = [?leaf, ?mid, ?root]" .
  with p t have "cache ''3'' = Some ''root/mid/leaf''"
    and "top_ancestor (index_by_id chain3) ''3'' = Some (Inr ''1'')"
    by simp_all
  with b chain3_forest chain3_chains(3) show ?thesis by blast
qed

lemma dangling1_index:
  "index_by_id dangling1 ''2'' = Some \<lparr>suite_id = ''2'', suite_name = ''Checkout'', parentId = Some ''99''\<rparr>"
  "index_by_id dangling1 ''99'' = None"
  by (simp_all add: index_by_id_def dangling1_def)

text \<open>
  Claim C8 as the specification words it fails on an acyclic snapshot whose only suite
  names a parent that is not in the list: no record with no parent is reached,
  \<open>top_ancestor\<close> raises \<open>KeyError\<close>, and the path stops at the suite's own name.
\<close>

theorem dangling_parent_has_no_root:
  "acyclic_snapshot dangling1
   \<and> \<not> parents_resolve dangling1
   \<and> \<not> (\<exists>ch. is_chain (index_by_id dangling1) ''2'' ch)
   \<and> top_ancestor (index_by_id dangling1) ''2'' = Some (Inl (KeyError ''99''))
   \<and> (\<exists>cache. build_suite_path_lookup dangling1 = Some (Inr cache)
          \<and> cache ''2'' = Some ''Checkout'')"
proof -
  let ?d = "\<lparr>suite_id = ''2'', suite_name = ''Checkout'', parentId = Some ''99''\<rparr>"
  have p: "parent_of (index_by_id dangling1) ?d = None"
    by (simp add: parent_of_def dangling1_index)
  have "acyclic_snapshot dangling1"
    unfolding acyclic_snapshot_def
  proof (intro allI impI)
    fix d and k :: nat
    assume dk: "d \<in> set dangling1 \<and> 0 < k"
    then have d: "d = ?d" by (simp add: dangling1_def)
    from dk obtain j where "k = Suc j" by (cases k) auto
    with d p show "ancestor_after (index_by_id dangling1) k (Some d) \<noteq> Some d"
      by (simp add: ancestor_after_Suc ancestor_after_None)
  qed
  moreover have "\<not> parents_resolve dangling1"
    by (simp add: parents_resolve_def dangling1_def)
  moreover have "\<not> (\<exists>ch. is_chain (index_by_id dangling1) ''2'' ch)"
  proof
    assume "\<exists>ch. is_chain (index_by_id dangling1) ''2'' ch"
    then obtain ch where ch: "is_chain (index_by_id dangling1) ''2'' ch" ..
    then obtain c rest where "ch = c # rest" by (cases ch) auto
    with ch have c: "c = ?d"
      by (simp add: dangling1_index)
    with ch \<open>ch = c # rest\<close> have "is_chain (index_by_id dangling1) ''99'' rest"
      by simp
    then show False by (cases rest) (simp_all add: dangling1_index)
  qed
  moreover have "top_ancestor (index_by_id dangling1) ''2'' = Some (Inl (KeyError ''99''))"
    by (simp add: top_ancestor_def dangling1_index climb.simps)
  moreover have "build_suite_path_lookup dangling1 = Some (Inr [''2'' \<mapsto> ''Checkout''])"
    by (simp add: build_suite_path_lookup_def dangling1_def index_by_id_def path_for_def
        walk_up.simps parent_of_def Let_def)
  ultimately show ?thesis by simp
qed

text \<open>
  Claim C2, as the code has it. The walks keep no record of the ids they have visited and
  raise no error on a cycle: when the parent references of a suite lead to a record that
  is its own ancestor, \<open>top_ancestor\<close> does not return for that suite and
  \<open>build_suite_path_lookup\<close> does not return for the suite list.
\<close>

theorem cyclic_hierarchy_never_returns:
  assumes "s \<in> set suites"
    and "ancestor_after (index_by_id suites) m (index_by_id suites (suite_id s)) = Some d"
    and "0 < n"
    and "ancestor_after (index_by_id suites) n (Some d) = Some d"
  shows "top_ancestor (index_by_id suites) (suite_id s) = None
       \<and> build_suite_path_lookup suites = None"
  using cyclic_walks_diverge [OF assms] by simp

lemma cycle2_index:
  "index_by_id cycle2 ''1'' = Some \<lparr>suite_id = ''1'', suite_name = ''a'', parentId = Some ''2''\<rparr>"
  "index_by_id cycle2 ''2'' = Some \<lparr>suite_id = ''2'', suite_name = ''b'', parentId = Some ''1''\<rparr>"
  by (simp_all add: index_by_id_def cycle2_def)

lemma cycle2_revisits:
  "ancestor_after (index_by_id cycle2) 0 (index_by_id cycle2 ''1'')
     = Some \<lparr>suite_id = ''1'', suite_name = ''a'', parentId = Some ''2''\<rparr>"
  "ancestor_after (index_by_id cycle2) 1 (index_by_id cycle2 ''2'')
     = Some \<lparr>suite_id = ''1'', suite_name = ''a'', parentId = Some ''2''\<rparr>"
  "ancestor_after (index_by_id cycle2) 2 (Some \<lparr>suite_id = ''1'', suite_name = ''a'', parentId = Some ''2''\<rparr>)
     = Some \<lparr>suite_id = ''1'', suite_name = ''a'', parentId = Some ''2''\<rparr>"
  by (simp_all add: ancestor_after_def cycle2_index parent_of_def numeral_2_eq_2)

theorem cyclic_hierarchy_never_returns_witness:
  "\<lparr>suite_id = ''2'', suite_name = ''b'', parentId = Some ''1''\<rparr> \<in> set cycle2
   \<and> ancestor_after (index_by_id cycle2) 1 (index_by_id cycle2 ''2'')
       = Some \<lparr>suite_id = ''1'', suite_name = ''a'', parentId = Some ''2''\<rparr>
   \<and> ancestor_after (index_by_id cycle2) 2 (Some \<lparr>suite_id = ''1'', suite_name = ''a'', parentId = Some ''2''\<rparr>)
       = Some \<lparr>suite_id = ''1'', suite_name = ''a'', parentId = Some ''2''\<rparr>
   \<and> top_ancestor (index_by_id cycle2) ''2'' = None
   \<and> build_suite_path_lookup cycle2 = None"
proof -
  let ?a = "\<lparr>suite_id = ''1'', suite_name = ''a'', parentId = Some ''2''\<rparr>"
  let ?b = "\<lparr>suite_id = ''2'', suite_name = ''b'', parentId = Some ''1''\<rparr>"
  have b: "?b \<in> set cycle2" by (simp add: cycle2_def)
  have m: "ancestor_after (index_by_id cycle2) 1 (index_by_id cycle2 (suite_id ?b)) = Some ?a"
    using cycle2_revisits(2) by simp
  from cyclic_hierarchy_never_returns [OF b m _ cycle2_revisits(3)]
  have "top_ancestor (index_by_id cycle2) (suite_id ?b) = None
       \<and> build_suite_path_lookup cycle2 = None"
    by simp
  with b cycle2_revisits show ?thesis by simp
qed

text \<open>
  Claim C2 as the specification words it fails on two suites that are each other's parent:
  neither walk fails with an error, neither returns.
\<close>

theorem cycle_raises_no_error:
  "top_ancestor (index_by_id cycle2) ''1'' = None
   \<and> path_for (index_by_id cycle2) Map.empty ''1'' = None
   \<and> build_suite_path_lookup cycle2 = None"
proof -
  let ?a = "\<lparr>suite_id = ''1'', suite_name = ''a'', parentId = Some ''2''\<rparr>"
  have a: "?a \<in> set cycle2" by (simp add: cycle2_def)
  have m: "ancestor_after (index_by_id cycle2) 0 (index_by_id cycle2 (suite_id ?a)) = Some ?a"
    using cycle2_revisits(1) by simp
  have never: "ancestor_after (index_by_id cycle2) k (index_by_id cycle2 ''1'') \<noteq> None" for k
    using revisit_never_ends [OF cycle2_revisits(1) _ cycle2_revisits(3)] by simp
  have "walk_up (index_by_id cycle2) (Some ?a) [] = None"
  proof (cases "walk_up (index_by_id cycle2) (Some ?a) []")
    case (Some r)
    from walk_up_ends [OF this] obtain k where
      "ancestor_after (index_by_id cycle2) k (Some ?a) = None" ..
    with never [of k] show ?thesis by (simp add: cycle2_index)
  qed simp
  then have "path_for (index_by_id cycle2) Map.empty ''1'' = None"
    by (simp add: path_for_def cycle2_index)
  with cyclic_walks_diverge [OF a m _ cycle2_revisits(3)] show ?thesis by simp
qed

section \<open>Properties of plan resolution\<close>

lemma filter_first:
  assumes "filter P xs = p # rest"
  shows "\<exists>pre post. xs = pre @ p # post \<and> P p \<and> (\<forall>q \<in> set pre. \<not> P q)"
  using assms by (auto simp: filter_eq_Cons_iff)

lemma filter_nonempty:
  assumes "\<exists>x \<in> set xs. P x"
  shows "\<exists>p rest. filter P xs = p # rest"
  using assms by (cases "filter P xs") (auto simp: filter_empty_conv)

text \<open>
  Claim C9. The configured name and the plans' names are compared in lower case. When some
  plan's stripped name equals the wanted name, the first such plan of the list is
  resolved, whatever substring matches stand before it; when none does and some plan's
  name contains the wanted name, the first such plan is resolved; when no plan matches
  either way the resolution fails with \<open>SystemExit\<close> (\<open>Plan '...' not found\<close>).
\<close>

theorem plan_resolution:
  "((\<exists>p \<in> set plans. strip (lower (plan_name_or_empty p)) = strip (lower plan_name)) \<longrightarrow>
      (\<exists>pre p post. plans = pre @ p # post
         \<and> strip (lower (plan_name_or_empty p)) = strip (lower plan_name)
         \<and> (\<forall>q \<in> set pre. strip (lower (plan_name_or_empty q)) \<noteq> strip (lower plan_name))
         \<and> resolve_plan_id_by_name plans plan_name = selected_plan p))
   \<and> ((\<forall>p \<in> set plans. strip (lower (plan_name_or_empty p)) \<noteq> strip (lower plan_name))
        \<and> (\<exists>p \<in> set plans. sublist (strip (lower plan_name)) (lower (plan_name_or_empty p))) \<longrightarrow>
      (\<exists>pre p post. plans = pre @ p # post
         \<and> sublist (strip (lower plan_name)) (lower (plan_name_or_empty p))
         \<and> (\<forall>q \<in> set pre. \<not> sublist (strip (lower plan_name)) (lower (plan_name_or_empty q)))
         \<and> resolve_plan_id_by_name plans plan_name = selected_plan p))
   \<and> ((\<forall>p \<in> set plans. strip (lower (plan_name_or_empty p)) \<noteq> strip (lower plan_name)
            \<and> \<not> sublist (strip (lower plan_name)) (lower (plan_name_or_empty p))) \<longrightarrow>
        resolve_plan_id_by_name plans plan_name
          = Inl (SystemExit (''Plan '' @ [CHR 0x27] @ plan_name @ [CHR 0x27] @ '' not found'')))"
proof (intro conjI impI)
  let ?w = "strip (lower plan_name)"
  {
    assume "\<exists>p \<in> set plans. strip (lower (plan_name_or_empty p)) = ?w"
    then have "\<exists>p \<in> set plans. exact_match ?w p" by (simp add: exact_match_def)
    from filter_nonempty [OF this] obtain p rest where
      f: "filter (exact_match ?w) plans = p # rest" by blast
    from filter_first [OF f] obtain pre post where
      "plans = pre @ p # post" "exact_match ?w p" "\<forall>q \<in> set pre. \<not> exact_match ?w q" by blast
    moreover from f have "resolve_plan_id_by_name plans plan_name = selected_plan p"
      by (simp add: resolve_plan_id_by_name_def Let_def)
    ultimately show "\<exists>pre p post. plans = pre @ p # post
         \<and> strip (lower (plan_name_or_empty p)) = ?w
         \<and> (\<forall>q \<in> set pre. strip (lower (plan_name_or_empty q)) \<noteq> ?w)
         \<and> resolve_plan_id_by_name plans plan_name = selected_plan p"
      unfolding exact_match_def by blast
  }
  {
    assume a: "(\<forall>p \<in> set plans. strip (lower (plan_name_or_empty p)) \<noteq> ?w)
        \<and> (\<exists>p \<in> set plans. sublist ?w (lower (plan_name_or_empty p)))"
    then have e: "filter (exact_match ?w) plans = []"
      by (simp add: exact_match_def filter_empty_conv)
    from a have "\<exists>p \<in> set plans. partial_match ?w p" by (simp add: partial_match_def)
    from filter_nonempty [OF this] obtain p rest where
      f: "filter (partial_match ?w) plans = p # rest" by blast
    from filter_first [OF f] obtain pre post where
      "plans = pre @ p # post" "partial_match ?w p" "\<forall>q \<in> set pre. \<not> partial_match ?w q" by blast
    moreover from e f have "resolve_plan_id_by_name plans plan_name = selected_plan p"
      by (simp add: resolve_plan_id_by_name_def Let_def)
    ultimately show "\<exists>pre p post. plans = pre @ p # post
         \<and> sublist ?w (lower (plan_name_or_empty p))
         \<and> (\<forall>q \<in> set pre. \<not> sublist ?w (lower (plan_name_or_empty q)))
         \<and> resolve_plan_id_by_name plans plan_name = selected_plan p"
      unfolding partial_match_def by blast
  }
  {
    assume a: "\<forall>p \<in> set plans. strip (lower (plan_name_or_empty p)) \<noteq> ?w
            \<and> \<not> sublist ?w (lower (plan_name_or_empty p))"
    then have "filter (exact_match ?w) plans = []" "filter (partial_match ?w) plans = []"
      by (simp_all add: exact_match_def partial_match_def filter_empty_conv)
    then show "resolve_plan_id_by_name plans plan_name
          = Inl (SystemExit (''Plan '' @ [CHR 0x27] @ plan_name @ [CHR 0x27] @ '' not found''))"
      by (simp add: resolve_plan_id_by_name_def Let_def)
  }
qed

theorem plan_resolution_witness:
  "sublist (strip (lower ''UAT Release 2'')) (lower (plan_name_or_empty (demo_plans ! 0)))
   \<and> strip (lower (plan_name_or_empty (demo_plans ! 1))) = strip (lower ''UAT Release 2'')
   \<and> (\<exists>pre p post. demo_plans = pre @ p # post
         \<and> strip (lower (plan_name_or_empty p)) = strip (lower ''UAT Release 2'')
         \<and> resolve_plan_id_by_name demo_plans ''UAT Release 2'' = selected_plan p)
   \<and> resolve_plan_id_by_name demo_plans ''UAT Release 2'' = Inr ''12''
   \<and> (\<exists>pre p post. demo_plans = pre @ p # post
         \<and> sublist (strip (lower ''regress'')) (lower (plan_name_or_empty p))
         \<and> resolve_plan_id_by_name demo_plans ''regress'' = selected_plan p)
   \<and> resolve_plan_id_by_name demo_plans ''regress'' = Inr ''13''
   \<and> resolve_plan_id_by_name demo_plans ''smoke''
       = Inl (SystemExit (''Plan '' @ [CHR 0x27] @ ''smoke'' @ [CHR 0x27] @ '' not found''))"
proof -
  have s0: "sublist (strip (lower ''UAT Release 2'')) (lower (plan_name_or_empty (demo_plans ! 0)))"
    by code_simp
  have e1: "strip (lower (plan_name_or_empty (demo_plans ! 1))) = strip (lower ''UAT Release 2'')"
    by code_simp
  have h1: "\<exists>p \<in> set demo_plans. strip (lower (plan_name_or_empty p)) = strip (lower ''UAT Release 2'')"
    by code_simp
  have h2: "(\<forall>p \<in> set demo_plans. strip (lower (plan_name_or_empty p)) \<noteq> strip (lower ''regress''))
        \<and> (\<exists>p \<in> set demo_plans. sublist (strip (lower ''regress'')) (lower (plan_name_or_empty p)))"
    by code_simp
  have h3: "\<forall>p \<in> set demo_plans. strip (lower (plan_name_or_empty p)) \<noteq> strip (lower ''smoke'')
            \<and> \<not> sublist (strip (lower ''smoke'')) (lower (plan_name_or_empty p))"
    by code_simp
  have r1: "resolve_plan_id_by_name demo_plans ''UAT Release 2'' = Inr ''12''"
    and r2: "resolve_plan_id_by_name demo_plans ''regress'' = Inr ''13''"
    by code_simp+
  note t = plan_resolution [of demo_plans]
  from t [of "''UAT Release 2''", THEN conjunct1, THEN mp, OF h1]
  have c1: "\<exists>pre p post. demo_plans = pre @ p # post
         \<and> strip (lower (plan_name_or_empty p)) = strip (lower ''UAT Release 2'')
         \<and> resolve_plan_id_by_name demo_plans ''UAT Release 2'' = selected_plan p"
    by blast
  from t [of "''regress''", THEN conjunct2, THEN conjunct1, THEN mp, OF h2]
  have c2: "\<exists>pre p post. demo_plans = pre @ p # post
         \<and> sublist (strip (lower ''regress'')) (lower (plan_name_or_empty p))
         \<and> resolve_plan_id_by_name demo_plans ''regress'' = selected_plan p"
    by blast
  note c3 = t [of "''smoke''", THEN conjunct2, THEN conjunct2, THEN mp, OF h3]
  from s0 e1 c1 r1 c2 r2 c3 show ?thesis by (intro conjI)
qed

section \<open>Properties of the orchestration\<close>

text \<open>
  The string helpers on code points outside ASCII: \<open>int\<close> refuses the separators
  \<open>0x1C\<close>--\<open>0x1F\<close> that \<open>strip\<close> drops, both drop \<open>0x85\<close> and \<open>0xA0\<close>, and \<open>lower\<close>
  maps the Latin-1 capitals.
\<close>

lemma string_helper_examples:
  "py_int [CHR 0x1F, CHR ''9''] = None"
  "py_int [CHR 0xA0, CHR ''-'', CHR ''7'', CHR 0x85] = Some (- 7)"
  "py_int ''1_0'' = Some 10"
  "strip (''Regression'' @ [CHR 0xA0]) = ''Regression''"
  "lower [CHR 0xC9, CHR ''A'', CHR 0xD7] = [CHR 0xE9, CHR ''a'', CHR 0xD7]"
  by code_simp+

lemma update_set:
  "(k', v') \<in> set (AList.update k v al) \<Longrightarrow> (k', v') = (k, v) \<or> (k', v') \<in> set al"
  by (induction al) (auto split: if_splits)

lemma emitted_outcome_settled:
  assumes "settled v"
  shows "emitted_outcome v \<in> {''Failed'', ''Blocked'', ''Paused'', ''Active'', ''NotApplicable'', ''Passed'', ''NeverRun''}"
  using assms unfolding settled_cases
  by (elim disjE) (simp_all add: emitted_outcome_def)

lemma merged_bucket_settled:
  assumes "\<And>b. stored = Some b \<Longrightarrow> settled (b_outcome b)"
  shows "settled (b_outcome (merged_bucket tcname outc path_str stored))"
proof (cases stored)
  case None
  have "settled (worse None outc)" by (rule settled_worse) (simp add: settled_def)
  with None show ?thesis by (simp add: merged_bucket_def)
next
  case (Some b)
  with assms show ?thesis by (simp add: merged_bucket_def settled_worse)
qed

lemma merge_point_settled:
  assumes "agg_settled agg" and "merge_point tid path_str p agg = Inr agg1"
  shows "agg_settled agg1"
proof (cases "truthy (tc_id (point_test_case p))")
  case False
  with assms show ?thesis by (simp add: merge_point_def Let_def)
next
  case True
  let ?tc = "point_test_case p"
  from True assms(2) obtain inner key where
    inner: "map_of agg tid = Some inner" and
    agg1: "agg1 = AList.update tid
        (AList.update key
          (merged_bucket (tc_name ?tc) (observed_outcome p) path_str (map_of inner key)) inner) agg"
    by (auto simp: merge_point_def Let_def split: option.splits)
  let ?b1 = "merged_bucket (tc_name ?tc) (observed_outcome p) path_str (map_of inner key)"
  from inner have in_agg: "(tid, inner) \<in> set agg" by (rule map_of_SomeD)
  have new: "settled (b_outcome ?b1)"
  proof (rule merged_bucket_settled)
    fix b assume "map_of inner key = Some b"
    then have "(key, b) \<in> set inner" by (rule map_of_SomeD)
    with in_agg assms(1) show "settled (b_outcome b)" by (auto simp: agg_settled_def)
  qed
  show ?thesis
    unfolding agg_settled_def
  proof (intro allI impI)
    fix t i k b
    assume t: "(t, i) \<in> set agg1" and k: "(k, b) \<in> set i"
    from t agg1 update_set [of t i tid _ agg]
    consider "i = AList.update key ?b1 inner" | "(t, i) \<in> set agg"
      by auto
    then show "settled (b_outcome b)"
    proof cases
      case 1
      with k update_set [of k b key _ inner]
      consider "b = ?b1" | "(k, b) \<in> set inner"
        by auto
      then show ?thesis
      proof cases
        case 1
        with new show ?thesis by simp
      next
        case 2
        with in_agg assms(1) show ?thesis by (auto simp: agg_settled_def)
      qed
    next
      case 2
      with k assms(1) show ?thesis by (auto simp: agg_settled_def)
    qed
  qed
qed

lemma merge_points_settled:
  "agg_settled agg \<Longrightarrow> merge_points tid path_str ps agg = Inr agg1 \<Longrightarrow> agg_settled agg1"
proof (induction ps arbitrary: agg)
  case Nil
  then show ?case by simp
next
  case (Cons p ps)
  from Cons.prems(2) obtain agg' where
    m: "merge_point tid path_str p agg = Inr agg'" and r: "merge_points tid path_str ps agg' = Inr agg1"
    by (auto split: sum.splits)
  from merge_point_settled [OF Cons.prems(1) m] r show ?case by (rule Cons.IH)
qed

lemma suite_loop_settled:
  "agg_settled agg \<Longrightarrow> suite_loop by_id suite_path fetched_points ss agg = Some (Inr agg1)
     \<Longrightarrow> agg_settled agg1"
proof (induction ss arbitrary: agg)
  case Nil
  then show ?case by simp
next
  case (Cons s ss)
  from Cons.prems(2) obtain pts where
    pts: "get_points_for_suite (fetched_points (suite_id s)) = Inr pts"
    by (auto split: sum.splits)
  show ?case
  proof (cases "pts = []")
    case True
    with Cons.prems pts have "suite_loop by_id suite_path fetched_points ss agg = Some (Inr agg1)"
      by simp
    with Cons.prems(1) show ?thesis by (rule Cons.IH)
  next
    case False
    with Cons.prems(2) pts obtain tid agg' where
      m: "merge_points tid (dict_get suite_path (suite_id s) (suite_name s)) pts agg = Inr agg'"
      and r: "suite_loop by_id suite_path fetched_points ss agg' = Some (Inr agg1)"
      by (auto simp: Let_def split: option.splits sum.splits)
    from merge_points_settled [OF Cons.prems(1) m] r show ?thesis by (rule Cons.IH)
  qed
qed

lemma initial_agg_settled_aux:
  "(\<forall>tid inner. (tid, inner) \<in> set a \<longrightarrow> inner = [])
   \<Longrightarrow> (tid, inner) \<in> set (foldl (\<lambda>a s. AList.update (suite_id s) [] a) a tops) \<Longrightarrow> inner = []"
proof (induction tops arbitrary: a)
  case Nil
  then show ?case by simp
next
  case (Cons t tops)
  have "\<forall>tid inner. (tid, inner) \<in> set (AList.update (suite_id t) [] a) \<longrightarrow> inner = []"
    using Cons.prems(1) update_set [of _ _ "suite_id t" "[]" a] by blast
  with Cons.prems(2) Cons.IH [of "AList.update (suite_id t) [] a"] show ?case by simp
qed

lemma initial_agg_settled:
  "agg_settled (foldl (\<lambda>a s. AList.update (suite_id s) [] a) [] tops)"
  unfolding agg_settled_def using initial_agg_settled_aux [of "[]" _ _ tops] by fastforce

lemma emit_rows_outcomes:
  assumes "agg_settled agg" and "emit_rows tops agg = Inr files"
    and "(n, rows) \<in> set files" and "r \<in> set rows"
  shows "Outcome r \<in> {''Failed'', ''Blocked'', ''Paused'', ''Active'', ''NotApplicable'', ''Passed'', ''NeverRun''}"
  using assms(2,3)
proof (induction tops arbitrary: files)
  case Nil
  then show ?case by simp
next
  case (Cons t tops)
  from Cons.prems(1) obtain inner files' where
    inner: "map_of agg (suite_id t) = Some inner" and f': "emit_rows tops agg = Inr files'"
    and files: "files = (suite_name t, map (make_row t) inner) # files'"
    by (auto split: option.splits sum.splits)
  from Cons.prems(2) files consider "rows = map (make_row t) inner" | "(n, rows) \<in> set files'"
    by auto
  then show ?case
  proof cases
    case 1
    with assms(4) obtain k b where kb: "(k, b) \<in> set inner" and r: "r = make_row t (k, b)"
      by auto
    from inner have "(suite_id t, inner) \<in> set agg" by (rule map_of_SomeD)
    with kb assms(1) have "settled (b_outcome b)" by (auto simp: agg_settled_def)
    from emitted_outcome_settled [OF this] r show ?thesis by (simp add: make_row_def)
  next
    case 2
    with f' show ?thesis by (rule Cons.IH)
  qed
qed

text \<open>
  Claim C10. The \<open>Outcome\<close> of every row that \<open>main\<close> emits is one of Failed, Blocked,
  Paused, Active, NotApplicable, Passed and NeverRun, whatever raw outcome strings the
  points carry.
\<close>

theorem emitted_outcomes_recognised:
  assumes "main suites fetched_runs fetched_results fetched_points = Some (Inr files)"
    and "(n, rows) \<in> set files" and "r \<in> set rows"
  shows "Outcome r \<in> {''Failed'', ''Blocked'', ''Paused'', ''Active'', ''NotApplicable'', ''Passed'', ''NeverRun''}"
proof -
  let ?tops = "filter (\<lambda>s. parentId s = None) suites"
  from assms(1) obtain suite_path agg where
    l: "suite_loop (index_by_id suites) suite_path fetched_points suites
          (foldl (\<lambda>a s. AList.update (suite_id s) [] a) [] ?tops) = Some (Inr agg)"
    and e: "emit_rows ?tops agg = Inr files"
    by (auto simp: main_def Let_def split: option.splits sum.splits)
  from suite_loop_settled [OF initial_agg_settled l] have "agg_settled agg" .
  from emit_rows_outcomes [OF this e assms(2,3)] show ?thesis .
qed

lemma demo_index:
  "index_by_id demo_suites ''1'' = Some \<lparr>suite_id = ''1'', suite_name = ''Commerce'', parentId = None\<rparr>"
  "index_by_id demo_suites ''2'' = Some \<lparr>suite_id = ''2'', suite_name = ''Checkout'', parentId = Some ''1''\<rparr>"
  by (simp_all add: index_by_id_def demo_suites_def)

lemma demo_suite_path:
  "build_suite_path_lookup demo_suites
     = Some (Inr [''1'' \<mapsto> ''Commerce'', ''2'' \<mapsto> ''Commerce/Checkout''])"
  by (simp add: build_suite_path_lookup_def demo_suites_def index_by_id_def path_for_def
      walk_up.simps parent_of_def Let_def)

lemma demo_top_ancestor: "top_ancestor (index_by_id demo_suites) ''2'' = Some (Inr ''1'')"
  by (simp add: top_ancestor_def demo_index climb.simps)

lemma demo_pts_1: "get_points_for_suite (demo_points ''1'') = Inr []"
  by (simp add: get_points_for_suite_def demo_points_def)

lemma demo_pts_2:
  "get_points_for_suite (demo_points ''2'') =
     Inr [(demo_point 7 None ''42'' ''Login'')\<lparr>resolvedOutcome := None\<rparr>,
          (demo_point 8 (Some ''Flaky'') ''43'' ''Pay'')\<lparr>resolvedOutcome := Some ''Flaky''\<rparr>,
          (demo_point 9 (Some ''Passed'') ''43'' ''Pay'')\<lparr>resolvedOutcome := Some ''Passed''\<rparr>,
          (demo_point 10 (Some ''Flaky'') ''44'' ''Refund'')\<lparr>resolvedOutcome := Some ''Flaky''\<rparr>]"
  by (simp add: get_points_for_suite_def demo_points_def demo_point_def resolve_point_outcome_def
      truthy_def nested_outcome_def)

lemma demo_ints: "py_int ''42'' = Some 42" "py_int ''43'' = Some 43" "py_int ''44'' = Some 44"
  "py_int ''7'' = Some 7"
  by code_simp+

lemma demo_merge:
  "merge_points ''1'' ''Commerce/Checkout''
     [(demo_point 7 None ''42'' ''Login'')\<lparr>resolvedOutcome := None\<rparr>,
      (demo_point 8 (Some ''Flaky'') ''43'' ''Pay'')\<lparr>resolvedOutcome := Some ''Flaky''\<rparr>,
      (demo_point 9 (Some ''Passed'') ''43'' ''Pay'')\<lparr>resolvedOutcome := Some ''Passed''\<rparr>,
      (demo_point 10 (Some ''Flaky'') ''44'' ''Refund'')\<lparr>resolvedOutcome := Some ''Flaky''\<rparr>]
     [(''1'', [])]
   = Inr [(''1'',
           [(42, \<lparr>b_name = Some ''Login'', b_outcome = None, b_paths = [''Commerce/Checkout'']\<rparr>),
            (43, \<lparr>b_name = Some ''Pay'', b_outcome = Some ''Passed'', b_paths = [''Commerce/Checkout'']\<rparr>),
            (44, \<lparr>b_name = Some ''Refund'', b_outcome = None, b_paths = [''Commerce/Checkout'']\<rparr>)])]"
  by (simp add: merge_point_def point_test_case_def observed_outcome_def merged_bucket_def
      demo_point_def truthy_def py_or_def or_empty_def demo_ints Let_def
      worse_def dict_get_def OUTCOME_ORDER_def)

lemma demo_main: "main demo_suites demo_runs demo_results demo_points = Some (Inr demo_files)"
proof -
  have tops: "filter (\<lambda>s. parentId s = None) demo_suites
      = [\<lparr>suite_id = ''1'', suite_name = ''Commerce'', parentId = None\<rparr>]"
    by (simp add: demo_suites_def)
  have loop: "suite_loop (index_by_id demo_suites)
      [''1'' \<mapsto> ''Commerce'', ''2'' \<mapsto> ''Commerce/Checkout''] demo_points demo_suites [(''1'', [])]
    = Some (Inr [(''1'',
           [(42, \<lparr>b_name = Some ''Login'', b_outcome = None, b_paths = [''Commerce/Checkout'']\<rparr>),
            (43, \<lparr>b_name = Some ''Pay'', b_outcome = Some ''Passed'', b_paths = [''Commerce/Checkout'']\<rparr>),
            (44, \<lparr>b_name = Some ''Refund'', b_outcome = None, b_paths = [''Commerce/Checkout'']\<rparr>)])])"
    unfolding demo_suites_def [symmetric]
    by (subst demo_suites_def)
       (simp add: demo_pts_1 demo_pts_2 demo_top_ancestor demo_index dict_get_def demo_merge
          del: merge_points.simps)
  show ?thesis
    by (simp add: main_def Let_def demo_suite_path tops loop demo_files_def make_row_def
        emitted_outcome_def)
qed

lemma demo_backfill:
  "build_backfill demo_runs demo_results 7
     = Some \<lparr>bf_outcome = Some ''Failed'', bf_ts = Some ''2024-05-02T10:00:00Z''\<rparr>"
  by (simp add: build_backfill_def demo_runs_def list_runs_for_plan_def demo_results_def
      list_results_for_run_def demo_ints backfill_result_def py_or_def truthy_def Let_def)

theorem emitted_outcomes_recognised_witness:
  "main demo_suites demo_runs demo_results demo_points = Some (Inr demo_files)
   \<and> demo_files ! 0 \<in> set demo_files
   \<and> snd (demo_files ! 0) ! 2 \<in> set (snd (demo_files ! 0))
   \<and> TestCaseId (snd (demo_files ! 0) ! 2) = 44
   \<and> observed_outcome (demo_point 10 (Some ''Flaky'') ''44'' ''Refund'') = Some ''Flaky''
   \<and> Outcome (snd (demo_files ! 0) ! 2) = ''NeverRun''
   \<and> Outcome (snd (demo_files ! 0) ! 2)
        \<in> {''Failed'', ''Blocked'', ''Paused'', ''Active'', ''NotApplicable'', ''Passed'', ''NeverRun''}"
proof -
  have f: "(fst (demo_files ! 0), snd (demo_files ! 0)) \<in> set demo_files"
    by (simp add: demo_files_def)
  have r: "snd (demo_files ! 0) ! 2 \<in> set (snd (demo_files ! 0))"
    by (simp add: demo_files_def)
  have o: "observed_outcome (demo_point 10 (Some ''Flaky'') ''44'' ''Refund'') = Some ''Flaky''"
    by (simp add: observed_outcome_def demo_point_def py_or_def truthy_def)
  have v: "TestCaseId (snd (demo_files ! 0) ! 2) = 44" "Outcome (snd (demo_files ! 0) ! 2) = ''NeverRun''"
    by (simp_all add: demo_files_def)
  from emitted_outcomes_recognised [OF demo_main f r] demo_main f r o v
  show ?thesis by simp
qed

lemma main_ignores_backfill:
  "main suites fetched_runs fetched_results fetched_points
     = main suites fetched_runs' fetched_results' fetched_points"
  unfolding main_def Let_def by (rule refl)

text \<open>
  Claim C3 fails on the code. \<open>main\<close> builds \<open>latest_by_point\<close> and never reads it: here
  the backfill map holds \<open>Failed\<close> for point 7, whose fields carry no outcome, and the row
  of its test case 42 is emitted as \<open>NeverRun\<close>; the rows are the same whatever the runs
  and results are.
\<close>

theorem backfill_never_reaches_rows:
  "build_backfill demo_runs demo_results 7
     = Some \<lparr>bf_outcome = Some ''Failed'', bf_ts = Some ''2024-05-02T10:00:00Z''\<rparr>
   \<and> resolve_point_outcome (demo_point 7 None ''42'' ''Login'') = None
   \<and> main demo_suites demo_runs demo_results demo_points = Some (Inr demo_files)
   \<and> TestCaseId (snd (demo_files ! 0) ! 0) = 42
   \<and> Outcome (snd (demo_files ! 0) ! 0) = ''NeverRun''
   \<and> (\<forall>runs results. main demo_suites runs results demo_points = Some (Inr demo_files))"
proof -
  have "resolve_point_outcome (demo_point 7 None ''42'' ''Login'') = None"
    by (simp add: resolve_point_outcome_def demo_point_def truthy_def nested_outcome_def)
  moreover have "TestCaseId (snd (demo_files ! 0) ! 0) = 42"
    "Outcome (snd (demo_files ! 0) ! 0) = ''NeverRun''"
    by (simp_all add: demo_files_def)
  moreover have "\<forall>runs results. main demo_suites runs results demo_points = Some (Inr demo_files)"
    using main_ignores_backfill [of demo_suites _ _ demo_points demo_runs demo_results]
    by (simp add: demo_main)
  ultimately show ?thesis using demo_backfill demo_main by simp
qed

subsection \<open>A fetch that fails for every version\<close>








end
